theory Spec2Isabelle
  imports Main
begin

section \<open>Memory: the primitives array.h is configured with\<close>

text \<open>
  array.h reaches memory only through \<^verbatim>\<open>ARRAY_MALLOC\<close>, \<^verbatim>\<open>ARRAY_FREE\<close>,
  \<^verbatim>\<open>ARRAY_MEMCPY\<close>, \<^verbatim>\<open>ARRAY_MEMMOVE\<close> and typed indexing \<^verbatim>\<open>((T*)data)[i]\<close>.
  A pointer is the base address of an allocation, \<open>NULL\<close> is address 0. Every byte count
  array_t passes to a primitive is \<^verbatim>\<open>sizeof(T)\<close> times a number of elements, at an offset
  that is a multiple of \<^verbatim>\<open>sizeof(T)\<close>, so an allocation is kept as the list of its
  \<open>T\<close>-sized cells and sizes are counted in cells (\<^verbatim>\<open>sizeof(T) \<ge> 1\<close>: a request is for
  zero bytes exactly when it is for zero cells).

  What the platform and the C standard fix is a field of the heap:
  \<^item> \<open>sizeof_T\<close>: \<^verbatim>\<open>sizeof(T)\<close>, the size of a cell in bytes;
  \<^item> \<open>zero_null\<close>: whether a zero-byte request returns \<open>NULL\<close> or a fresh pointer;
  \<^item> \<open>junk\<close>: the indeterminate value found in freshly allocated cells.
  Allocation itself never fails (the spec puts exhaustion outside the contract).

  \<^verbatim>\<open>size_t\<close> is \<open>nat\<close>, 64 bits wide. The product \<^verbatim>\<open>sizeof(T) * n\<close> that \<^verbatim>\<open>resize\<close> and
  \<^verbatim>\<open>copy\<close> pass to the allocator is taken modulo \<open>2^64\<close> (\<open>size_t_mul\<close>): there \<open>n\<close>
  is the argument of \<^verbatim>\<open>resize\<close>, any number a caller chooses, or the \<open>capacity\<close> field that
  holds it, and the allocation has as many cells as the wrapped byte count has room for.
  \<^verbatim>\<open>count+1\<close>, \<^verbatim>\<open>capacity*2\<close> and the lengths of the copies are computed from the count
  of elements stored, which the buffer that stores them bounds, and
  \<^verbatim>\<open>copy_deinterlace\<close> allocates for the count of records in the memory its view looks
  at: these stay in cells. The one subtraction that can wrap (\<^verbatim>\<open>count - 1\<close> at
  \<^verbatim>\<open>count = 0\<close>) is written out where the source has it.
\<close>

type_synonym ptr = nat

definition NULL :: ptr where
  "NULL = 0"

definition SIZE_MAX :: nat where
  "SIZE_MAX = 2 ^ 64 - 1"

datatype fault =
    Assert_failed    \<comment> \<open>\<^verbatim>\<open>ARRAY_ASSERT\<close> (\<^verbatim>\<open>assert\<close>, compiled in) was given a false condition\<close>
  | Invalid_access   \<comment> \<open>undefined behaviour: an access outside every live allocation\<close>

record 'a heap =
  blocks :: "ptr \<Rightarrow> 'a list option"
  next_id :: nat
  sizeof_T :: nat
  zero_null :: bool
  junk :: 'a

definition block_at :: "'a heap \<Rightarrow> ptr \<Rightarrow> 'a list option" where
  "block_at h p = (if p = NULL then None else blocks h p)"

definition ARRAY_MALLOC :: "nat \<Rightarrow> 'a heap \<Rightarrow> ptr \<times> 'a heap" where
  "ARRAY_MALLOC n h =
     (if n = 0 \<and> zero_null h then (NULL, h)
      else (Suc (next_id h),
            h\<lparr>blocks := (blocks h)(Suc (next_id h) \<mapsto> replicate n (junk h)),
              next_id := Suc (next_id h)\<rparr>))"

text \<open>
  \<^verbatim>\<open>ARRAY_MALLOC(sizeof(T) * n)\<close> as \<^verbatim>\<open>resize\<close> and \<^verbatim>\<open>copy\<close> write it, the product
  taken in \<^verbatim>\<open>size_t\<close>: a request for zero bytes when the product is a multiple of
  \<open>2^64\<close>, and otherwise a fresh allocation with room for \<open>bytes div sizeof(T)\<close> cells,
  which is \<open>n\<close> cells only when the product did not wrap.
\<close>

definition size_t_mul :: "nat \<Rightarrow> nat \<Rightarrow> nat" where
  "size_t_mul x y = (x * y) mod 2 ^ 64"

definition ARRAY_MALLOC_sizeof :: "nat \<Rightarrow> 'a heap \<Rightarrow> ptr \<times> 'a heap" where
  "ARRAY_MALLOC_sizeof n h =
     (let bytes = size_t_mul (sizeof_T h) n
      in if bytes = 0 then ARRAY_MALLOC 0 h
         else (Suc (next_id h),
               h\<lparr>blocks := (blocks h)(Suc (next_id h) \<mapsto> replicate (bytes div sizeof_T h) (junk h)),
                 next_id := Suc (next_id h)\<rparr>))"

definition ARRAY_FREE :: "ptr \<Rightarrow> 'a heap \<Rightarrow> fault + 'a heap" where
  "ARRAY_FREE p h =
     (if p = NULL then Inr h
      else case blocks h p of
             None \<Rightarrow> Inl Invalid_access
           | Some xs \<Rightarrow> Inr (h\<lparr>blocks := (blocks h)(p := None)\<rparr>))"

text \<open>\<^verbatim>\<open>((T*)p)[i]\<close> as an rvalue and as the target of an assignment.\<close>

definition load :: "'a heap \<Rightarrow> ptr \<Rightarrow> nat \<Rightarrow> fault + 'a" where
  "load h p i =
     (case block_at h p of
        None \<Rightarrow> Inl Invalid_access
      | Some xs \<Rightarrow> if i < length xs then Inr (xs ! i) else Inl Invalid_access)"

definition store :: "ptr \<Rightarrow> nat \<Rightarrow> 'a \<Rightarrow> 'a heap \<Rightarrow> fault + 'a heap" where
  "store p i v h =
     (case block_at h p of
        None \<Rightarrow> Inl Invalid_access
      | Some xs \<Rightarrow>
          if i < length xs then Inr (h\<lparr>blocks := (blocks h)(p \<mapsto> xs[i := v])\<rparr>)
          else Inl Invalid_access)"

text \<open>
  Ranges of cells: \<open>n\<close> cells starting at cell \<open>i\<close> of the allocation at \<open>p\<close>. A
  transfer of zero bytes touches nothing, whatever the pointers are.
\<close>

definition load_range :: "'a heap \<Rightarrow> ptr \<Rightarrow> nat \<Rightarrow> nat \<Rightarrow> fault + 'a list" where
  "load_range h p i n =
     (if n = 0 then Inr []
      else case block_at h p of
             None \<Rightarrow> Inl Invalid_access
           | Some xs \<Rightarrow>
               if i + n \<le> length xs then Inr (take n (drop i xs)) else Inl Invalid_access)"

definition store_range :: "ptr \<Rightarrow> nat \<Rightarrow> 'a list \<Rightarrow> 'a heap \<Rightarrow> fault + 'a heap" where
  "store_range p i vs h =
     (if vs = [] then Inr h
      else case block_at h p of
             None \<Rightarrow> Inl Invalid_access
           | Some xs \<Rightarrow>
               if i + length vs \<le> length xs
               then Inr (h\<lparr>blocks := (blocks h)(p \<mapsto> take i xs @ vs @ drop (i + length vs) xs)\<rparr>)
               else Inl Invalid_access)"

text \<open>
  \<^verbatim>\<open>memmove(dst + di, src + si, n)\<close>: as if through a temporary buffer.
  \<^verbatim>\<open>memcpy\<close> is the same transfer, undefined when the two ranges overlap.
\<close>

definition ARRAY_MEMMOVE :: "ptr \<Rightarrow> nat \<Rightarrow> ptr \<Rightarrow> nat \<Rightarrow> nat \<Rightarrow> 'a heap \<Rightarrow> fault + 'a heap" where
  "ARRAY_MEMMOVE dst di src si n h =
     (case load_range h src si n of
        Inl e \<Rightarrow> Inl e
      | Inr vs \<Rightarrow> store_range dst di vs h)"

definition ARRAY_MEMCPY :: "ptr \<Rightarrow> nat \<Rightarrow> ptr \<Rightarrow> nat \<Rightarrow> nat \<Rightarrow> 'a heap \<Rightarrow> fault + 'a heap" where
  "ARRAY_MEMCPY dst di src si n h =
     (if 0 < n \<and> dst = src \<and> di < si + n \<and> si < di + n then Inl Invalid_access
      else ARRAY_MEMMOVE dst di src si n h)"

text \<open>
  An argument \<^verbatim>\<open>const T &item\<close> is a reference, read when the callee uses it: either to
  an object outside every allocation (a temporary or a local of the caller), whose value
  it carries, or to a cell of an allocation, as the reference that \<^verbatim>\<open>get\<close> returns is.
  \<open>read_item\<close> is the read \<^verbatim>\<open>... = item\<close>, \<open>write_item\<close> the copy
  \<^verbatim>\<open>ARRAY_MEMCPY(dst + di, &item, sizeof(T))\<close>.
\<close>

datatype 'a item_ref =
    Outside 'a
  | Inside ptr nat

fun read_item :: "'a heap \<Rightarrow> 'a item_ref \<Rightarrow> fault + 'a" where
  "read_item h (Outside v) = Inr v"
| "read_item h (Inside p j) = load h p j"

fun write_item :: "ptr \<Rightarrow> nat \<Rightarrow> 'a item_ref \<Rightarrow> 'a heap \<Rightarrow> fault + 'a heap" where
  "write_item dst di (Outside v) h = store dst di v h"
| "write_item dst di (Inside p j) h = ARRAY_MEMCPY dst di p j 1 h"

section \<open>array_t\<close>

record array_t =
  data :: ptr
  count :: nat
  capacity :: nat

text \<open>The zeroed state \<^verbatim>\<open>array_t<T> a = {}\<close>.\<close>

definition array_zero :: array_t where
  "array_zero = \<lparr>data = NULL, count = 0, capacity = 0\<rparr>"

text \<open>
  \<^verbatim>\<open>resize\<close> (array.h 130-143): truncate \<open>count\<close>, allocate
  \<^verbatim>\<open>sizeof(T) * to_capacity\<close> bytes, copy \<open>count\<close> elements (the source calls
  \<^verbatim>\<open>memcpy\<close> itself here), publish the new pointer, free the old one, set \<open>capacity\<close>
  to the argument.
\<close>

fun array_resize :: "nat \<Rightarrow> 'a heap \<times> array_t \<Rightarrow> fault + ('a heap \<times> array_t)" where
  "array_resize to_capacity (h, a) =
     (let a1 = (if count a > to_capacity then a\<lparr>count := to_capacity\<rparr> else a);
          old_memory = data a1;
          (new_memory, h1) = ARRAY_MALLOC_sizeof to_capacity h
      in case ARRAY_MEMCPY new_memory 0 old_memory 0 (count a1) h1 of
           Inl e \<Rightarrow> Inl e
         | Inr h2 \<Rightarrow>
             (case ARRAY_FREE old_memory h2 of
                Inl e \<Rightarrow> Inl e
              | Inr h3 \<Rightarrow> Inr (h3, a1\<lparr>data := new_memory, capacity := to_capacity\<rparr>)))"

text \<open>
  \<^verbatim>\<open>add\<close> (array.h 88): the growth test is \<^verbatim>\<open>count+1 >= capacity\<close>, the new capacity
  \<^verbatim>\<open>capacity * 2 < 4 ? 4 : capacity * 2\<close>; the item is read for the assignment, after
  the growth; returns \<^verbatim>\<open>count - 1\<close> after the increment.
\<close>

fun array_add :: "'a item_ref \<Rightarrow> 'a heap \<times> array_t \<Rightarrow> fault + (nat \<times> 'a heap \<times> array_t)" where
  "array_add item (h, a) =
     (case (if count a + 1 \<ge> capacity a
            then array_resize (if capacity a * 2 < 4 then 4 else capacity a * 2) (h, a)
            else Inr (h, a)) of
        Inl e \<Rightarrow> Inl e
      | Inr (h1, a1) \<Rightarrow>
          (case read_item h1 item of
             Inl e \<Rightarrow> Inl e
           | Inr v \<Rightarrow>
               (case store (data a1) (count a1) v h1 of
                  Inl e \<Rightarrow> Inl e
                | Inr h2 \<Rightarrow> Inr (count a1 + 1 - 1, h2, a1\<lparr>count := count a1 + 1\<rparr>))))"

text \<open>\<^verbatim>\<open>clear\<close> (array.h 89).\<close>

fun array_clear :: "'a heap \<times> array_t \<Rightarrow> 'a heap \<times> array_t" where
  "array_clear (h, a) = (h, a\<lparr>count := 0\<rparr>)"

text \<open>
  \<^verbatim>\<open>set\<close>, \<^verbatim>\<open>get\<close>, \<^verbatim>\<open>operator[]\<close> (array.h 100-102) index the buffer and test
  nothing; \<^verbatim>\<open>last\<close> (array.h 91) indexes at \<^verbatim>\<open>count - 1\<close>, which wraps to
  \<^verbatim>\<open>SIZE_MAX\<close> when \<open>count\<close> is 0. \<^verbatim>\<open>set\<close> reads \<^verbatim>\<open>const T &val\<close> in the assignment
  itself, with no step before it that could change what the reference designates: the
  item is its value at the call.
\<close>

fun array_set :: "nat \<Rightarrow> 'a \<Rightarrow> 'a heap \<times> array_t \<Rightarrow> fault + ('a heap \<times> array_t)" where
  "array_set id' val (h, a) =
     (case store (data a) id' val h of
        Inl e \<Rightarrow> Inl e
      | Inr h1 \<Rightarrow> Inr (h1, a))"

definition array_get :: "'a heap \<Rightarrow> array_t \<Rightarrow> nat \<Rightarrow> fault + 'a" where
  "array_get h a id' = load h (data a) id'"

definition array_index :: "'a heap \<Rightarrow> array_t \<Rightarrow> nat \<Rightarrow> fault + 'a" where
  "array_index h a id' = load h (data a) id'"

definition array_last :: "'a heap \<Rightarrow> array_t \<Rightarrow> fault + 'a" where
  "array_last h a = load h (data a) (if count a = 0 then SIZE_MAX else count a - 1)"

text \<open>
  \<^verbatim>\<open>remove\<close> (array.h 168-176): the assertion, then a \<^verbatim>\<open>memmove\<close> of the
  \<^verbatim>\<open>count - (at + 1)\<close> elements behind \<open>at\<close> one slot down.
\<close>

fun array_remove :: "nat \<Rightarrow> 'a heap \<times> array_t \<Rightarrow> fault + ('a heap \<times> array_t)" where
  "array_remove aAt (h, a) =
     (if \<not> aAt < count a then Inl Assert_failed
      else case ARRAY_MEMMOVE (data a) aAt (data a) (aAt + 1) (count a - (aAt + 1)) h of
             Inl e \<Rightarrow> Inl e
           | Inr h1 \<Rightarrow> Inr (h1, a\<lparr>count := count a - 1\<rparr>))"

text \<open>\<^verbatim>\<open>pop\<close> (array.h 92): \<^verbatim>\<open>remove(count - 1)\<close>, in \<^verbatim>\<open>size_t\<close>.\<close>

fun array_pop :: "'a heap \<times> array_t \<Rightarrow> fault + ('a heap \<times> array_t)" where
  "array_pop (h, a) = array_remove (if count a = 0 then SIZE_MAX else count a - 1) (h, a)"

text \<open>
  \<^verbatim>\<open>insert\<close> (array.h 180-192): the assertion, growth when \<^verbatim>\<open>count+1 > capacity\<close> to
  \<^verbatim>\<open>capacity<1 ? 1 : capacity*2\<close>, a \<^verbatim>\<open>memmove\<close> of the \<^verbatim>\<open>count - at\<close> elements from
  \<open>at\<close> one slot up, and the copy from \<^verbatim>\<open>&item\<close> into slot \<open>at\<close>, which reads the item
  after the growth and after the shift.
\<close>

fun array_insert :: "nat \<Rightarrow> 'a item_ref \<Rightarrow> 'a heap \<times> array_t \<Rightarrow> fault + ('a heap \<times> array_t)" where
  "array_insert aAt item (h, a) =
     (if \<not> aAt \<le> count a then Inl Assert_failed
      else case (if count a + 1 > capacity a
                 then array_resize (if capacity a < 1 then 1 else capacity a * 2) (h, a)
                 else Inr (h, a)) of
             Inl e \<Rightarrow> Inl e
           | Inr (h1, a1) \<Rightarrow>
               (case ARRAY_MEMMOVE (data a1) (aAt + 1) (data a1) aAt (count a1 - aAt) h1 of
                  Inl e \<Rightarrow> Inl e
                | Inr h2 \<Rightarrow>
                    (case write_item (data a1) aAt item h2 of
                       Inl e \<Rightarrow> Inl e
                     | Inr h3 \<Rightarrow> Inr (h3, a1\<lparr>count := count a1 + 1\<rparr>))))"

text \<open>\<^verbatim>\<open>free\<close> (array.h 147-151) and \<^verbatim>\<open>copy\<close> (array.h 155-164).\<close>

fun array_free :: "'a heap \<times> array_t \<Rightarrow> fault + ('a heap \<times> array_t)" where
  "array_free (h, a) =
     (case ARRAY_FREE (data a) h of
        Inl e \<Rightarrow> Inl e
      | Inr h1 \<Rightarrow> Inr (h1, array_zero))"

fun array_copy :: "'a heap \<times> array_t \<Rightarrow> fault + ('a heap \<times> array_t)" where
  "array_copy (h, a) =
     (let (p, h1) = ARRAY_MALLOC_sizeof (capacity a) h;
          result = \<lparr>data = p, count = count a, capacity = capacity a\<rparr>
      in case ARRAY_MEMCPY (data result) 0 (data a) 0 (count a) h1 of
           Inl e \<Rightarrow> Inl e
         | Inr h2 \<Rightarrow> Inr (h2, result))"

text \<open>
  \<^verbatim>\<open>reverse\<close> (array.h 196-203): the loop \<^verbatim>\<open>for (i=0; i<count/2; i+=1)\<close> from its
  counter \<open>i\<close> on; \<^verbatim>\<open>count - i - 1\<close> does not wrap while \<^verbatim>\<open>i < count/2\<close>.
\<close>

function array_reverse_loop :: "nat \<Rightarrow> 'a heap \<times> array_t \<Rightarrow> fault + ('a heap \<times> array_t)" where
  "array_reverse_loop i (h, a) =
     (if i < count a div 2
      then case array_get h a i of
             Inl e \<Rightarrow> Inl e
           | Inr tmp \<Rightarrow>
               (case array_get h a (count a - i - 1) of
                  Inl e \<Rightarrow> Inl e
                | Inr v \<Rightarrow>
                    (case array_set i v (h, a) of
                       Inl e \<Rightarrow> Inl e
                     | Inr (h1, a1) \<Rightarrow>
                         (case array_set (count a1 - i - 1) tmp (h1, a1) of
                            Inl e \<Rightarrow> Inl e
                          | Inr s2 \<Rightarrow> array_reverse_loop (i + 1) s2)))
      else Inr (h, a))"
  by pat_completeness auto
termination
  by (relation "measure (\<lambda>(i, h, a). count a div 2 - i)")
     (auto split: sum.splits)

definition array_reverse :: "'a heap \<times> array_t \<Rightarrow> fault + ('a heap \<times> array_t)" where
  "array_reverse s = array_reverse_loop 0 s"

text \<open>
  \<^verbatim>\<open>each\<close> (array.h 90): the callback receives a reference to the element and may
  assign to it; it is a function from the element's value to its value afterwards.
\<close>

function array_each_loop :: "('a \<Rightarrow> 'a) \<Rightarrow> nat \<Rightarrow> 'a heap \<times> array_t \<Rightarrow> fault + ('a heap \<times> array_t)" where
  "array_each_loop e i (h, a) =
     (if i < count a
      then case load h (data a) i of
             Inl err \<Rightarrow> Inl err
           | Inr x \<Rightarrow>
               (case store (data a) i (e x) h of
                  Inl err \<Rightarrow> Inl err
                | Inr h1 \<Rightarrow> array_each_loop e (i + 1) (h1, a))
      else Inr (h, a))"
  by pat_completeness auto
termination
  by (relation "measure (\<lambda>(e, i, h, a). count a - i)") auto

definition array_each :: "('a \<Rightarrow> 'a) \<Rightarrow> 'a heap \<times> array_t \<Rightarrow> fault + ('a heap \<times> array_t)" where
  "array_each e s = array_each_loop e 0 s"

section \<open>The abstraction: a valid array and the sequence it holds\<close>

text \<open>
  \<open>valid h a\<close>: \<open>count\<close> is within \<open>capacity\<close>, the pointer was handed out by the allocator,
  and a non-null \<open>data\<close> is a live allocation of \<open>capacity\<close> cells (a null one goes with
  capacity 0). \<open>contents h a\<close> is the element sequence: the first \<open>count\<close> cells.
\<close>

definition valid :: "'a heap \<Rightarrow> array_t \<Rightarrow> bool" where
  "valid h a \<longleftrightarrow>
     count a \<le> capacity a \<and> data a \<le> next_id h \<and>
     (if data a = NULL then capacity a = 0
      else case blocks h (data a) of
             None \<Rightarrow> False
           | Some xs \<Rightarrow> length xs = capacity a)"

definition contents :: "'a heap \<Rightarrow> array_t \<Rightarrow> 'a list" where
  "contents h a = (case block_at h (data a) of None \<Rightarrow> [] | Some xs \<Rightarrow> take (count a) xs)"

text \<open>
  A heap with no allocation, for a \<open>T\<close> of four bytes, and \<open>n\<close> consecutive \<^verbatim>\<open>add\<close>
  calls, each with an item that is not a reference into an allocation
  (\<^verbatim>\<open>a.add(10)\<close>, or \<^verbatim>\<open>a.add(x)\<close> for a local \<open>x\<close>).
\<close>

definition heap_empty :: "bool \<Rightarrow> 'a \<Rightarrow> 'a heap" where
  "heap_empty z j =
     \<lparr>blocks = (\<lambda>p. None), next_id = 0, sizeof_T = 4, zero_null = z, junk = j\<rparr>"

fun add_all :: "'a list \<Rightarrow> 'a heap \<times> array_t \<Rightarrow> fault + ('a heap \<times> array_t)" where
  "add_all [] s = Inr s"
| "add_all (x # xs) s =
     (case array_add (Outside x) s of
        Inl e \<Rightarrow> Inl e
      | Inr (i, s1) \<Rightarrow> add_all xs s1)"

text \<open>
  The state after \<^verbatim>\<open>add(10); add(20); add(30)\<close> on the zeroed array: one buffer of
  capacity 4 holding three elements.
\<close>

definition example_heap :: "nat heap" where
  "example_heap =
     \<lparr>blocks = (\<lambda>p. None)(1 \<mapsto> [10, 20, 30, 0]), next_id = 1, sizeof_T = 4,
      zero_null = True, junk = 0\<rparr>"

definition example_array :: array_t where
  "example_array = \<lparr>data = 1, count = 3, capacity = 4\<rparr>"

text \<open>
  The state after \<^verbatim>\<open>insert(0, 10)\<close> on the zeroed array: a buffer of capacity 1 that is
  full.
\<close>

definition full_heap :: "nat heap" where
  "full_heap =
     \<lparr>blocks = (\<lambda>p. None)(1 \<mapsto> [10]), next_id = 1, sizeof_T = 4, zero_null = True,
      junk = 0\<rparr>"

definition full_array :: array_t where
  "full_array = \<lparr>data = 1, count = 1, capacity = 1\<rparr>"

text \<open>The predicate of the data model: \<open>data\<close> is null exactly when \<open>capacity\<close> is 0.\<close>

definition null_iff_empty :: "array_t \<Rightarrow> bool" where
  "null_iff_empty a \<longleftrightarrow> (data a = NULL) = (capacity a = 0)"

text \<open>
  No allocation and no release between two heaps: the allocator has handed out nothing
  new and the same addresses are live. \<open>unmoved s s'\<close>: also the array's buffer pointer
  and its capacity are the same in the two states.
\<close>

definition same_allocations :: "'a heap \<Rightarrow> 'a heap \<Rightarrow> bool" where
  "same_allocations h h' \<longleftrightarrow>
     next_id h' = next_id h \<and> (\<forall>p. (blocks h' p = None) = (blocks h p = None))"

definition unmoved :: "'a heap \<times> array_t \<Rightarrow> 'a heap \<times> array_t \<Rightarrow> bool" where
  "unmoved s s' \<longleftrightarrow>
     data (snd s') = data (snd s) \<and> capacity (snd s') = capacity (snd s) \<and>
     same_allocations (fst s) (fst s')"

section \<open>array_view_t\<close>

text \<open>
  The view's four fields (array.h 110-115). The two \<^verbatim>\<open>array_view_create\<close> overloads
  (array.h 209-220) have no embedding: their bodies initialise the \<^verbatim>\<open>void*\<close> field from
  a \<^verbatim>\<open>const D*\<close> and the \<^verbatim>\<open>size_t\<close> field \<open>offset\<close> from a pointer to member
  \<^verbatim>\<open>T D::*\<close>, conversions C++ does not have, so that no instantiation of either has a
  meaning to translate. A view is given by its fields.
\<close>

record array_view_t =
  view_data :: ptr
  view_count :: nat
  view_stride :: nat
  view_offset :: nat

text \<open>
  The memory a view looks at is foreign and addressed by bytes: \<open>m p\<close> is the \<open>T\<close> read
  from the \<^verbatim>\<open>sizeof(T)\<close> bytes at address \<open>p\<close>.

  \<^verbatim>\<open>set\<close> (array.h 121) assigns through \<^verbatim>\<open>*(T*)((uint8_t*)data + id*stride + offset)\<close>:
  the object at the computed address. \<^verbatim>\<open>get\<close>, \<^verbatim>\<open>operator[]\<close> (array.h 122-123) and
  \<^verbatim>\<open>last\<close> return \<^verbatim>\<open>(T&)((uint8_t*)data + id*stride + offset)\<close>: a reference cast
  applied to the pointer value, with no dereference in the expression. Where a compiler
  accepts that cast of an rvalue it is \<^verbatim>\<open>*(T*)&tmp\<close> for the temporary \<open>tmp\<close> holding the
  address, so the reference designates the pointer's own bytes. An lvalue is therefore
  one of two things, and reading a \<open>T\<close> through the second kind yields the bits of the
  address (\<open>bits_as_T\<close>, fixed by the platform), not the memory's content.
\<close>

datatype lvalue =
    Object_at ptr
  | Pointer_temporary ptr

fun read_lvalue :: "(ptr \<Rightarrow> 'a) \<Rightarrow> (ptr \<Rightarrow> 'a) \<Rightarrow> lvalue \<Rightarrow> 'a" where
  "read_lvalue bits_as_T m (Object_at p) = m p"
| "read_lvalue bits_as_T m (Pointer_temporary p) = bits_as_T p"

definition array_view_set :: "array_view_t \<Rightarrow> nat \<Rightarrow> 'a \<Rightarrow> (ptr \<Rightarrow> 'a) \<Rightarrow> (ptr \<Rightarrow> 'a)" where
  "array_view_set v id' val m = m(view_data v + id' * view_stride v + view_offset v := val)"

definition array_view_get :: "array_view_t \<Rightarrow> nat \<Rightarrow> lvalue" where
  "array_view_get v id' = Pointer_temporary (view_data v + id' * view_stride v + view_offset v)"

text \<open>
  \<^verbatim>\<open>copy_deinterlace\<close> (array.h 224-232): allocate \<open>count\<close> cells, then
  \<^verbatim>\<open>result[i] = this->get(i)\<close> for \<open>i\<close> from 0; the loop from its counter on.
\<close>

function array_view_copy_loop ::
  "(ptr \<Rightarrow> 'a) \<Rightarrow> (ptr \<Rightarrow> 'a) \<Rightarrow> array_view_t \<Rightarrow> ptr \<Rightarrow> nat \<Rightarrow> 'a heap \<Rightarrow> fault + 'a heap" where
  "array_view_copy_loop bits_as_T m v result i h =
     (if i < view_count v
      then case store result i (read_lvalue bits_as_T m (array_view_get v i)) h of
             Inl e \<Rightarrow> Inl e
           | Inr h1 \<Rightarrow> array_view_copy_loop bits_as_T m v result (i + 1) h1
      else Inr h)"
  by pat_completeness auto
termination
  by (relation "measure (\<lambda>(b, m, v, result, i, h). view_count v - i)") auto

definition array_view_copy_deinterlace ::
  "(ptr \<Rightarrow> 'a) \<Rightarrow> (ptr \<Rightarrow> 'a) \<Rightarrow> array_view_t \<Rightarrow> 'a heap \<Rightarrow> fault + (ptr \<times> 'a heap)" where
  "array_view_copy_deinterlace bits_as_T m v h =
     (let (result, h1) = ARRAY_MALLOC (view_count v) h
      in case array_view_copy_loop bits_as_T m v result 0 h1 of
           Inl e \<Rightarrow> Inl e
         | Inr h2 \<Rightarrow> Inr (result, h2))"

section \<open>Basic facts about a valid array\<close>

lemmas mem_defs = NULL_def ARRAY_MALLOC_def ARRAY_MEMCPY_def ARRAY_MEMMOVE_def load_range_def
  store_range_def ARRAY_FREE_def store_def load_def block_at_def

declare array_resize.simps [simp del] array_add.simps [simp del] array_insert.simps [simp del]
  array_remove.simps [simp del] array_pop.simps [simp del] array_set.simps [simp del]
  array_free.simps [simp del] array_copy.simps [simp del] array_clear.simps [simp del]
  array_reverse_loop.simps [simp del] array_each_loop.simps [simp del]
  array_view_copy_loop.simps [simp del]

lemmas eval_defs = mem_defs ARRAY_MALLOC_sizeof_def size_t_mul_def

lemmas array_simps = array_resize.simps array_add.simps array_insert.simps array_remove.simps
  array_pop.simps array_set.simps array_free.simps array_copy.simps array_clear.simps

lemma valid_array_zero: "valid h array_zero"
  by (simp add: valid_def array_zero_def NULL_def)

lemma length_contents: "valid h a \<Longrightarrow> length (contents h a) = count a"
  by (auto simp: valid_def contents_def block_at_def split: option.splits if_splits)

lemma array_get_contents:
  "valid h a \<Longrightarrow> i < count a \<Longrightarrow> array_get h a i = Inr (contents h a ! i)"
  by (auto simp: valid_def contents_def array_get_def load_def block_at_def
           split: option.splits if_splits)

text \<open>
  What \<^verbatim>\<open>resize\<close> does to a valid array: it returns, the array stays valid and holds
  the first \<open>k\<close> elements, and the new pointer is null exactly for a zero-byte request
  that the allocator answers with null.
\<close>

lemma size_t_mul_exact: "x * y \<le> SIZE_MAX \<Longrightarrow> size_t_mul x y = x * y"
  by (simp add: size_t_mul_def SIZE_MAX_def)

lemma ARRAY_MALLOC_sizeof_exact:
  assumes "0 < sizeof_T h" "sizeof_T h * n \<le> SIZE_MAX"
  shows "ARRAY_MALLOC_sizeof n h = ARRAY_MALLOC n h"
  using assms
  by (auto simp: ARRAY_MALLOC_sizeof_def ARRAY_MALLOC_def size_t_mul_exact Let_def)

lemma array_resize_valid:
  assumes "valid h a" "0 < sizeof_T h" "sizeof_T h * k \<le> SIZE_MAX"
  shows "case array_resize k (h, a) of
           Inl e \<Rightarrow> False
         | Inr (h', a') \<Rightarrow>
             valid h' a' \<and> contents h' a' = take k (contents h a) \<and>
             count a' = min (count a) k \<and> capacity a' = k \<and>
             (data a' = NULL \<longleftrightarrow> k = 0 \<and> zero_null h) \<and>
             sizeof_T h' = sizeof_T h \<and> zero_null h' = zero_null h \<and> junk h' = junk h"
  using assms(1)
  by (auto simp: array_resize.simps ARRAY_MALLOC_sizeof_exact [OF assms(2,3)] valid_def
                 contents_def mem_defs Let_def min_def
           split: option.splits if_splits)

text \<open>Whenever \<^verbatim>\<open>resize\<close> returns, from any state, it has set the two counters.\<close>

lemma array_resize_counters:
  "array_resize k (h, a) = Inr (h', a') \<Longrightarrow> capacity a' = k \<and> count a' = min (count a) k"
  by (auto simp: array_resize.simps Let_def min_def split: sum.splits prod.splits if_splits)

lemma store_contents:
  assumes "valid h a" "i < capacity a"
  shows "case store (data a) i x h of
           Inl e \<Rightarrow> False
         | Inr h' \<Rightarrow>
             valid h' a \<and> valid h' (a\<lparr>count := Suc (count a)\<rparr>) = (count a < capacity a) \<and>
             contents h' a = (contents h a)[i := x] \<and>
             (i = count a \<longrightarrow> contents h' (a\<lparr>count := Suc (count a)\<rparr>) = contents h a @ [x]) \<and>
             next_id h' = next_id h \<and> sizeof_T h' = sizeof_T h \<and>
             zero_null h' = zero_null h \<and> junk h' = junk h"
  using assms
  by (auto simp: valid_def contents_def store_def block_at_def take_Suc_conv_app_nth
                 take_update_swap list_update_append
           split: option.splits if_splits)

lemma array_add_valid:
  assumes "valid h a" "0 < sizeof_T h"
    "capacity a \<le> count a + 1 \<longrightarrow>
       sizeof_T h * (if capacity a * 2 < 4 then 4 else capacity a * 2) \<le> SIZE_MAX"
  shows "case array_add (Outside x) (h, a) of
           Inl e \<Rightarrow> False
         | Inr (i, h', a') \<Rightarrow>
             i = count a \<and> valid h' a' \<and> contents h' a' = contents h a @ [x] \<and>
             count a' = count a + 1 \<and> data a' \<noteq> NULL \<and>
             sizeof_T h' = sizeof_T h \<and> zero_null h' = zero_null h \<and> junk h' = junk h"
proof (cases "count a + 1 \<ge> capacity a")
  case True
  let ?k = "if capacity a * 2 < 4 then 4 else capacity a * 2"
  from assms(1) have "count a \<le> capacity a" by (simp add: valid_def)
  with True have k: "count a < ?k" by auto
  from True assms(3) have fits: "sizeof_T h * ?k \<le> SIZE_MAX" by simp
  from array_resize_valid [OF assms(1,2) fits] obtain h1 a1 where
    r: "array_resize ?k (h, a) = Inr (h1, a1)" and v: "valid h1 a1"
    and cs: "contents h1 a1 = take ?k (contents h a)" and cn: "count a1 = min (count a) ?k"
    and cp: "capacity a1 = ?k" and d: "data a1 \<noteq> NULL"
    and z: "sizeof_T h1 = sizeof_T h" "zero_null h1 = zero_null h" "junk h1 = junk h"
    by (auto split: sum.splits prod.splits if_splits)
  from k cn have cn': "count a1 = count a" by simp
  have cs': "contents h1 a1 = contents h a"
    using cs k length_contents [OF assms(1)] by simp
  from store_contents [OF v, of "count a1" x] cn' cp k r cs' d z True show ?thesis
    by (simp add: array_add.simps split: sum.splits)
next
  case False
  then have lt: "count a < capacity a" by simp
  then have "data a \<noteq> NULL" using assms(1) by (auto simp: valid_def)
  with store_contents [OF assms(1) lt, of x] False show ?thesis
    by (simp add: array_add.simps split: sum.splits)
qed

lemma add_all_valid:
  "valid h a \<Longrightarrow> 0 < sizeof_T h \<Longrightarrow>
   sizeof_T h * max 4 (2 * (count a + length xs)) \<le> SIZE_MAX \<Longrightarrow>
   (case add_all xs (h, a) of
      Inl e \<Rightarrow> False
    | Inr (h', a') \<Rightarrow>
        valid h' a' \<and> contents h' a' = contents h a @ xs \<and> count a' = count a + length xs)"
proof (induction xs arbitrary: h a)
  case Nil
  then show ?case by simp
next
  case (Cons x xs)
  let ?k = "if capacity a * 2 < 4 then 4 else capacity a * 2"
  have fits: "capacity a \<le> count a + 1 \<longrightarrow> sizeof_T h * ?k \<le> SIZE_MAX"
  proof
    assume "capacity a \<le> count a + 1"
    then have "?k \<le> max 4 (2 * (count a + length (x # xs)))" by auto
    then have "sizeof_T h * ?k \<le> sizeof_T h * max 4 (2 * (count a + length (x # xs)))"
      by (rule mult_le_mono2)
    with Cons.prems(3) show "sizeof_T h * ?k \<le> SIZE_MAX" by simp
  qed
  from array_add_valid [OF Cons.prems(1,2) fits, of x] obtain i h1 a1 where
    a: "array_add (Outside x) (h, a) = Inr (i, h1, a1)" and v: "valid h1 a1"
    and cs: "contents h1 a1 = contents h a @ [x]" and cn: "count a1 = count a + 1"
    and sz: "sizeof_T h1 = sizeof_T h"
    by (auto split: sum.splits prod.splits)
  from Cons.prems(2,3) sz cn have "0 < sizeof_T h1"
    "sizeof_T h1 * max 4 (2 * (count a1 + length xs)) \<le> SIZE_MAX"
    by simp_all
  from Cons.IH [OF v this] a cs cn show ?case
    by (simp split: sum.splits prod.splits)
qed

lemma valid_example: "valid example_heap example_array"
  by (simp add: valid_def example_heap_def example_array_def NULL_def)

lemma contents_example: "contents example_heap example_array = [10, 20, 30]"
  by (simp add: contents_def example_heap_def example_array_def block_at_def NULL_def)

lemma replicate_four: "replicate 4 x = [x, x, x, x]"
  by (simp add: eval_nat_numeral)

lemma example_reached:
  "add_all [10, 20, 30] (heap_empty True 0, array_zero) = Inr (example_heap, example_array)"
  by (simp add: heap_empty_def array_zero_def array_simps eval_defs Let_def example_heap_def
        example_array_def replicate_four)

text \<open>The two shifts, on the list of cells.\<close>

lemma shift_up_list:
  assumes "i \<le> n" "n < length xs"
  shows "take (Suc n) ((take (Suc i) xs @ take (n - i) (drop i xs) @ drop (Suc n) xs)[i := x]) =
         take i (take n xs) @ x # drop i (take n xs)"
proof -
  let ?B = "take (n - i) (drop i xs)" and ?C = "drop (Suc n) xs"
  from assms have "(take (Suc i) xs)[i := x] = take i xs @ [x]"
    by (simp add: take_Suc_conv_app_nth list_update_append)
  with assms have "(take (Suc i) xs @ ?B @ ?C)[i := x] = (take i xs @ [x]) @ ?B @ ?C"
    by (simp add: list_update_append)
  moreover from assms have "length ((take i xs @ [x]) @ ?B) = Suc n" by simp
  then have "take (Suc n) (((take i xs @ [x]) @ ?B) @ ?C) = (take i xs @ [x]) @ ?B"
    by (metis append_eq_conv_conj)
  moreover from assms have "take i (take n xs) = take i xs" "drop i (take n xs) = ?B"
    by (simp_all add: drop_take min_def)
  ultimately show ?thesis by simp
qed

lemma shift_down_list:
  assumes "i < n" "n \<le> length xs"
  shows "take (n - 1) (take i xs @ take (n - Suc i) (drop (Suc i) xs) @ drop (i + (n - Suc i)) xs) =
         take i (take n xs) @ drop (Suc i) (take n xs)"
proof -
  let ?B = "take (n - Suc i) (drop (Suc i) xs)" and ?C = "drop (i + (n - Suc i)) xs"
  from assms have "length (take i xs @ ?B) = n - 1" by simp
  then have "take (n - 1) ((take i xs @ ?B) @ ?C) = take i xs @ ?B"
    by (metis append_eq_conv_conj)
  moreover from assms have "take i (take n xs) = take i xs" "drop (Suc i) (take n xs) = ?B"
    by (simp_all add: drop_take min_def)
  ultimately show ?thesis by simp
qed

lemma insert_shift:
  assumes "valid h a" "count a < capacity a" "i \<le> count a"
  shows "case ARRAY_MEMMOVE (data a) (i + 1) (data a) i (count a - i) h of
           Inl e \<Rightarrow> False
         | Inr h2 \<Rightarrow>
             (case store (data a) i x h2 of
                Inl e \<Rightarrow> False
              | Inr h3 \<Rightarrow>
                  valid h3 (a\<lparr>count := count a + 1\<rparr>) \<and>
                  contents h3 (a\<lparr>count := count a + 1\<rparr>) =
                    take i (contents h a) @ x # drop i (contents h a) \<and>
                  next_id h3 = next_id h \<and> zero_null h3 = zero_null h \<and> junk h3 = junk h \<and>
                  (\<forall>p. (blocks h3 p = None) = (blocks h p = None)))"
proof -
  from assms obtain xs where b: "data a \<noteq> NULL" "blocks h (data a) = Some xs"
    "length xs = capacity a" "data a \<le> next_id h"
    by (auto simp: valid_def split: option.splits if_splits)
  show ?thesis
  proof (cases "i = count a")
    case True
    with b assms show ?thesis
      by (simp add: valid_def contents_def ARRAY_MEMMOVE_def load_range_def store_range_def
            store_def block_at_def take_Suc_conv_app_nth take_update_swap list_update_append)
  next
    case False
    with assms have lt: "i < count a" by simp
    with b assms shift_up_list [of i "count a" xs x] show ?thesis
      by (simp add: valid_def contents_def ARRAY_MEMMOVE_def load_range_def store_range_def
            store_def block_at_def)
  qed
qed

lemma remove_shift:
  assumes "valid h a" "i < count a"
  shows "case ARRAY_MEMMOVE (data a) i (data a) (i + 1) (count a - (i + 1)) h of
           Inl e \<Rightarrow> False
         | Inr h1 \<Rightarrow>
             valid h1 (a\<lparr>count := count a - 1\<rparr>) \<and>
             contents h1 (a\<lparr>count := count a - 1\<rparr>) =
               take i (contents h a) @ drop (Suc i) (contents h a) \<and>
             next_id h1 = next_id h \<and> zero_null h1 = zero_null h \<and> junk h1 = junk h \<and>
             (\<forall>p. (blocks h1 p = None) = (blocks h p = None))"
proof -
  from assms obtain xs where b: "data a \<noteq> NULL" "blocks h (data a) = Some xs"
    "length xs = capacity a" "data a \<le> next_id h" "count a \<le> capacity a"
    by (auto simp: valid_def split: option.splits if_splits)
  show ?thesis
  proof (cases "Suc i = count a")
    case True
    then have "count a - Suc 0 = i" by simp
    with True b assms show ?thesis
      by (simp add: valid_def contents_def ARRAY_MEMMOVE_def load_range_def store_range_def block_at_def)
  next
    case False
    with b assms shift_down_list [of i "count a" xs] show ?thesis
      by (simp add: valid_def contents_def ARRAY_MEMMOVE_def load_range_def store_range_def block_at_def)
  qed
qed

lemma array_insert_valid:
  assumes "valid h a" "i \<le> count a" "0 < sizeof_T h"
    "capacity a < count a + 1 \<longrightarrow>
       sizeof_T h * (if capacity a < 1 then 1 else capacity a * 2) \<le> SIZE_MAX"
  shows "case array_insert i (Outside x) (h, a) of
           Inl e \<Rightarrow> False
         | Inr (h', a') \<Rightarrow>
             valid h' a' \<and>
             contents h' a' = take i (contents h a) @ x # drop i (contents h a) \<and>
             count a' = count a + 1 \<and> data a' \<noteq> NULL \<and>
             zero_null h' = zero_null h \<and> junk h' = junk h"
proof (cases "count a + 1 > capacity a")
  case True
  let ?k = "if capacity a < 1 then 1 else capacity a * 2"
  from assms(1) have "count a \<le> capacity a" by (simp add: valid_def)
  with True have k: "count a < ?k" by auto
  from True assms(4) have fits: "sizeof_T h * ?k \<le> SIZE_MAX" by simp
  from array_resize_valid [OF assms(1,3) fits] obtain h1 a1 where
    r: "array_resize ?k (h, a) = Inr (h1, a1)" and v: "valid h1 a1"
    and cs: "contents h1 a1 = take ?k (contents h a)" and cn: "count a1 = min (count a) ?k"
    and cp: "capacity a1 = ?k" and d: "data a1 \<noteq> NULL"
    and z: "zero_null h1 = zero_null h" "junk h1 = junk h"
    by (auto split: sum.splits prod.splits if_splits)
  from k cn have cn': "count a1 = count a" by simp
  have cs': "contents h1 a1 = contents h a"
    using cs k length_contents [OF assms(1)] by simp
  from cn' cp k have lt: "count a1 < capacity a1" by simp
  from assms(2) cn' have le: "i \<le> count a1" by simp
  from insert_shift [OF v lt le, of x] obtain h2 h3 where
    m: "ARRAY_MEMMOVE (data a1) (i + 1) (data a1) i (count a1 - i) h1 = Inr h2"
    and st: "store (data a1) i x h2 = Inr h3"
    and v3: "valid h3 (a1\<lparr>count := count a1 + 1\<rparr>)"
    and cs3: "contents h3 (a1\<lparr>count := count a1 + 1\<rparr>) =
                take i (contents h1 a1) @ x # drop i (contents h1 a1)"
    and z3: "zero_null h3 = zero_null h1" "junk h3 = junk h1"
    by (auto split: sum.splits)
  from True assms(2) r m st
  have "array_insert i (Outside x) (h, a) = Inr (h3, a1\<lparr>count := count a1 + 1\<rparr>)"
    by (simp add: array_insert.simps)
  with v3 cs3 z3 z cs' cn' d show ?thesis by simp
next
  case False
  then have lt: "count a < capacity a" by simp
  then have "data a \<noteq> NULL" using assms(1) by (auto simp: valid_def)
  moreover from insert_shift [OF assms(1) lt assms(2), of x] obtain h2 h3 where
    m: "ARRAY_MEMMOVE (data a) (i + 1) (data a) i (count a - i) h = Inr h2"
    and st: "store (data a) i x h2 = Inr h3"
    and v3: "valid h3 (a\<lparr>count := count a + 1\<rparr>)"
    and cs3: "contents h3 (a\<lparr>count := count a + 1\<rparr>) =
                take i (contents h a) @ x # drop i (contents h a)"
    and z3: "zero_null h3 = zero_null h" "junk h3 = junk h"
    by (auto split: sum.splits)
  moreover from False assms(2) m st
  have "array_insert i (Outside x) (h, a) = Inr (h3, a\<lparr>count := count a + 1\<rparr>)"
    by (simp add: array_insert.simps)
  ultimately show ?thesis by simp
qed

lemma array_remove_valid:
  assumes "valid h a" "i < count a"
  shows "case array_remove i (h, a) of
           Inl e \<Rightarrow> False
         | Inr (h', a') \<Rightarrow>
             valid h' a' \<and>
             contents h' a' = take i (contents h a) @ drop (Suc i) (contents h a) \<and>
             count a' = count a - 1 \<and> data a' = data a \<and> capacity a' = capacity a"
  using remove_shift [OF assms] assms(2)
  by (simp add: array_remove.simps split: sum.splits)

lemma array_set_valid:
  assumes "valid h a" "i < capacity a"
  shows "case array_set i v (h, a) of
           Inl e \<Rightarrow> False
         | Inr (h', a') \<Rightarrow>
             a' = a \<and> valid h' a \<and> contents h' a = (contents h a)[i := v] \<and>
             next_id h' = next_id h \<and> zero_null h' = zero_null h \<and> junk h' = junk h \<and>
             (\<forall>p. (blocks h' p = None) = (blocks h p = None))"
  using assms
  by (auto simp: array_set.simps valid_def contents_def store_def block_at_def take_update_swap
           split: option.splits if_splits)

lemma middle_fixed: "n div 2 \<le> i \<Longrightarrow> i \<le> j \<Longrightarrow> j < n - i \<Longrightarrow> n - 1 - j = (j::nat)"
  by arith

lemma array_reverse_loop_valid:
  "valid h a \<Longrightarrow>
   (case array_reverse_loop i (h, a) of
      Inl e \<Rightarrow> False
    | Inr (h', a') \<Rightarrow>
        a' = a \<and> valid h' a \<and>
        (\<forall>j<count a. contents h' a ! j =
           (if i \<le> j \<and> j < count a - i then contents h a ! (count a - 1 - j)
            else contents h a ! j)) \<and>
        next_id h' = next_id h \<and> zero_null h' = zero_null h \<and> junk h' = junk h \<and>
        (\<forall>p. (blocks h' p = None) = (blocks h p = None)))"
proof (induction "count a div 2 - i" arbitrary: i h)
  case 0
  then have fin: "\<not> i < count a div 2" by simp
  then have "array_reverse_loop i (h, a) = Inr (h, a)"
    by (simp add: array_reverse_loop.simps)
  moreover have "\<forall>j<count a. contents h a ! j =
           (if i \<le> j \<and> j < count a - i then contents h a ! (count a - 1 - j)
            else contents h a ! j)"
    using fin middle_fixed [of "count a" i] by auto
  ultimately show ?case using 0 by simp
next
  case (Suc m)
  let ?n = "count a" and ?cs = "contents h a"
  from Suc.hyps(2) have lt: "i < ?n div 2" by simp
  then have i: "i < ?n" and k: "?n - i - 1 < ?n" and ne: "i \<noteq> ?n - i - 1" by auto
  from Suc.prems have cap: "?n \<le> capacity a" by (simp add: valid_def)
  have len: "length ?cs = ?n" by (rule length_contents [OF Suc.prems])
  have g1: "array_get h a i = Inr (?cs ! i)"
    by (rule array_get_contents [OF Suc.prems i])
  have g2: "array_get h a (?n - i - 1) = Inr (?cs ! (?n - i - 1))"
    by (rule array_get_contents [OF Suc.prems k])
  from array_set_valid [OF Suc.prems, of i "?cs ! (?n - i - 1)"] i cap obtain h1 where
    s1: "array_set i (?cs ! (?n - i - 1)) (h, a) = Inr (h1, a)" and v1: "valid h1 a"
    and c1: "contents h1 a = ?cs[i := ?cs ! (?n - i - 1)]"
    and f1: "next_id h1 = next_id h" "zero_null h1 = zero_null h" "junk h1 = junk h"
      "\<forall>p. (blocks h1 p = None) = (blocks h p = None)"
    by (auto split: sum.splits prod.splits)
  from array_set_valid [OF v1, of "?n - i - 1" "?cs ! i"] k cap obtain h2 where
    s2: "array_set (?n - i - 1) (?cs ! i) (h1, a) = Inr (h2, a)" and v2: "valid h2 a"
    and c2: "contents h2 a = (contents h1 a)[?n - i - 1 := ?cs ! i]"
    and f2: "next_id h2 = next_id h1" "zero_null h2 = zero_null h1" "junk h2 = junk h1"
      "\<forall>p. (blocks h2 p = None) = (blocks h1 p = None)"
    by (auto split: sum.splits prod.splits)
  from lt g1 g2 s1 s2
  have unfold: "array_reverse_loop i (h, a) = array_reverse_loop (i + 1) (h2, a)"
    by (subst array_reverse_loop.simps) simp
  from Suc.hyps(2) have m: "m = ?n div 2 - (i + 1)" by simp
  from Suc.hyps(1) [OF m v2] obtain h' where
    r: "array_reverse_loop (i + 1) (h2, a) = Inr (h', a)" and v': "valid h' a"
    and c': "\<forall>j<?n. contents h' a ! j =
           (if i + 1 \<le> j \<and> j < ?n - (i + 1) then contents h2 a ! (?n - 1 - j)
            else contents h2 a ! j)"
    and f': "next_id h' = next_id h2" "zero_null h' = zero_null h2" "junk h' = junk h2"
      "\<forall>p. (blocks h' p = None) = (blocks h2 p = None)"
    by (auto split: sum.splits prod.splits)
  from c1 c2 len i k ne have c2i: "contents h2 a ! i = ?cs ! (?n - i - 1)"
    and c2k: "contents h2 a ! (?n - i - 1) = ?cs ! i"
    and c2o: "\<And>l. l \<noteq> i \<Longrightarrow> l \<noteq> ?n - i - 1 \<Longrightarrow> contents h2 a ! l = ?cs ! l"
    by (simp_all add: nth_list_update)
  have "\<forall>j<?n. contents h' a ! j =
           (if i \<le> j \<and> j < ?n - i then ?cs ! (?n - 1 - j) else ?cs ! j)"
  proof (intro allI impI)
    fix j assume j: "j < ?n"
    with c' have step: "contents h' a ! j =
           (if i + 1 \<le> j \<and> j < ?n - (i + 1) then contents h2 a ! (?n - 1 - j)
            else contents h2 a ! j)" by simp
    consider (lo) "j = i" | (hi) "j = ?n - i - 1" | (other) "j \<noteq> i" "j \<noteq> ?n - i - 1"
      by blast
    then show "contents h' a ! j =
           (if i \<le> j \<and> j < ?n - i then ?cs ! (?n - 1 - j) else ?cs ! j)"
    proof cases
      case lo
      from lt have "i < ?n - i" by arith
      with lo step c2i show ?thesis by simp
    next
      case hi
      from lt have "i \<le> ?n - i - 1" "?n - i - 1 < ?n - i" "?n - 1 - (?n - i - 1) = i"
        "\<not> ?n - i - 1 < ?n - (i + 1)"
        by arith+
      with hi step c2k show ?thesis by simp
    next
      case other
      show ?thesis
      proof (cases "i + 1 \<le> j \<and> j < ?n - (i + 1)")
        case True
        then have "?n - 1 - j \<noteq> i" "?n - 1 - j \<noteq> ?n - i - 1" "i \<le> j \<and> j < ?n - i"
          by arith+
        with step True c2o [of "?n - 1 - j"] show ?thesis by simp
      next
        case False
        with other have "\<not> (i \<le> j \<and> j < ?n - i)" by arith
        with step False c2o [OF other] show ?thesis by auto
      qed
    qed
  qed
  with unfold r v' f' f1 f2 show ?case by simp
qed

lemma array_reverse_valid:
  assumes "valid h a"
  shows "case array_reverse (h, a) of
           Inl e \<Rightarrow> False
         | Inr (h', a') \<Rightarrow>
             a' = a \<and> valid h' a \<and> contents h' a = rev (contents h a) \<and>
             next_id h' = next_id h \<and> zero_null h' = zero_null h \<and> junk h' = junk h \<and>
             (\<forall>p. (blocks h' p = None) = (blocks h p = None))"
proof -
  from array_reverse_loop_valid [OF assms, of 0] obtain h' where
    r: "array_reverse_loop 0 (h, a) = Inr (h', a)" and v: "valid h' a"
    and c: "\<forall>j<count a. contents h' a ! j = contents h a ! (count a - 1 - j)"
    and f: "next_id h' = next_id h" "zero_null h' = zero_null h" "junk h' = junk h"
      "\<forall>p. (blocks h' p = None) = (blocks h p = None)"
    by (auto split: sum.splits prod.splits)
  have "contents h' a = rev (contents h a)"
  proof (rule nth_equalityI)
    show "length (contents h' a) = length (rev (contents h a))"
      using length_contents [OF v] length_contents [OF assms] by simp
  next
    fix j assume "j < length (contents h' a)"
    then have j: "j < count a" using length_contents [OF v] by simp
    with c length_contents [OF assms] show "contents h' a ! j = rev (contents h a) ! j"
      by (simp add: rev_nth)
  qed
  with r v f show ?thesis by (simp add: array_reverse_def)
qed

lemma same_allocations_refl: "same_allocations h h"
  by (simp add: same_allocations_def)

lemma same_allocations_trans:
  "same_allocations h h1 \<Longrightarrow> same_allocations h1 h2 \<Longrightarrow> same_allocations h h2"
  by (simp add: same_allocations_def)

lemma store_same_allocations: "store p i v h = Inr h' \<Longrightarrow> same_allocations h h'"
  by (auto simp: store_def block_at_def same_allocations_def split: option.splits if_splits)

lemma memmove_same_allocations:
  "ARRAY_MEMMOVE dst di src si n h = Inr h' \<Longrightarrow> same_allocations h h'"
  by (auto simp: ARRAY_MEMMOVE_def load_range_def store_range_def block_at_def
                 same_allocations_def
           split: option.splits if_splits sum.splits)

lemma memcpy_same_allocations:
  "ARRAY_MEMCPY dst di src si n h = Inr h' \<Longrightarrow> same_allocations h h'"
  by (auto simp: ARRAY_MEMCPY_def dest: memmove_same_allocations split: if_splits)

lemma write_item_same_allocations:
  "write_item dst di item h = Inr h' \<Longrightarrow> same_allocations h h'"
  by (cases item) (auto dest: store_same_allocations memcpy_same_allocations)

lemma store_not_null: "store p i v h = Inr h' \<Longrightarrow> p \<noteq> NULL"
  by (auto simp: store_def block_at_def split: option.splits if_splits)

lemma write_item_not_null: "write_item dst di item h = Inr h' \<Longrightarrow> dst \<noteq> NULL"
  by (cases item)
     (auto simp: store_def ARRAY_MEMCPY_def ARRAY_MEMMOVE_def load_range_def store_range_def
                 block_at_def
           split: option.splits if_splits sum.splits)

lemma array_set_unmoved: "array_set i v (h, a) = Inr s' \<Longrightarrow> snd s' = a \<and> same_allocations h (fst s')"
  by (auto simp: array_set.simps dest: store_same_allocations split: sum.splits)

lemma array_remove_unmoved: "array_remove i s = Inr s' \<Longrightarrow> unmoved s s'"
  by (cases s)
     (auto simp: array_remove.simps unmoved_def dest: memmove_same_allocations
           split: sum.splits if_splits)

lemma array_reverse_loop_unmoved:
  "array_reverse_loop i (h, a) = Inr s' \<Longrightarrow> snd s' = a \<and> same_allocations h (fst s')"
proof (induction "count a div 2 - i" arbitrary: i h)
  case 0
  then show ?case by (auto simp: array_reverse_loop.simps same_allocations_refl)
next
  case (Suc m)
  from Suc.hyps(2) have lt: "i < count a div 2" and m: "m = count a div 2 - (i + 1)" by simp_all
  from Suc.prems lt obtain tmp v s1 s2 where
    g: "array_get h a i = Inr tmp" "array_get h a (count a - i - 1) = Inr v"
    and s1: "array_set i v (h, a) = Inr s1"
    and s2: "array_set (count (snd s1) - i - 1) tmp s1 = Inr s2"
    and r: "array_reverse_loop (i + 1) s2 = Inr s'"
    by (subst (asm) array_reverse_loop.simps) (auto split: sum.splits prod.splits)
  from array_set_unmoved [OF s1] have a1: "snd s1 = a" and f1: "same_allocations h (fst s1)"
    by simp_all
  from s2 a1 have "array_set (count a - i - 1) tmp (fst s1, a) = Inr s2"
    by (cases s1) simp
  from array_set_unmoved [OF this] have a2: "snd s2 = a"
    and f2: "same_allocations (fst s1) (fst s2)"
    by simp_all
  from r a2 have "array_reverse_loop (i + 1) (fst s2, a) = Inr s'" by (cases s2) simp
  from Suc.hyps(1) [OF m this] f1 f2 show ?case
    by (blast intro: same_allocations_trans)
qed

lemma array_each_loop_unmoved:
  "array_each_loop e i (h, a) = Inr s' \<Longrightarrow> snd s' = a \<and> same_allocations h (fst s')"
proof (induction "count a - i" arbitrary: i h)
  case 0
  then show ?case by (auto simp: array_each_loop.simps same_allocations_refl)
next
  case (Suc m)
  from Suc.hyps(2) have lt: "i < count a" and m: "m = count a - (i + 1)" by simp_all
  from Suc.prems lt obtain x h1 where
    l: "load h (data a) i = Inr x" and st: "store (data a) i (e x) h = Inr h1"
    and r: "array_each_loop e (i + 1) (h1, a) = Inr s'"
    by (subst (asm) array_each_loop.simps) (auto split: sum.splits)
  from Suc.hyps(1) [OF m r] store_same_allocations [OF st] show ?case
    by (blast intro: same_allocations_trans)
qed

lemma valid_example_two: "valid example_heap (example_array\<lparr>count := 2\<rparr>)"
  by (simp add: valid_def example_heap_def example_array_def NULL_def)

lemma array_copy_valid:
  assumes "valid h a" "0 < sizeof_T h" "sizeof_T h * capacity a \<le> SIZE_MAX"
  shows "case array_copy (h, a) of
           Inl e \<Rightarrow> False
         | Inr (h', c) \<Rightarrow>
             valid h' c \<and> valid h' a \<and> contents h' c = contents h a \<and>
             contents h' a = contents h a \<and> count c = count a \<and> capacity c = capacity a \<and>
             (data c = NULL \<longleftrightarrow> capacity a = 0 \<and> zero_null h) \<and>
             (data c \<noteq> NULL \<longrightarrow> data c \<noteq> data a)"
  using assms(1)
  by (auto simp: array_copy.simps ARRAY_MALLOC_sizeof_exact [OF assms(2,3)] valid_def
                 contents_def mem_defs Let_def min_def
           split: option.splits if_splits)

lemma array_free_valid:
  assumes "valid h a"
  shows "case array_free (h, a) of
           Inl e \<Rightarrow> False
         | Inr (h', a') \<Rightarrow> a' = array_zero \<and> block_at h' (data a) = None"
  using assms
  by (auto simp: array_free.simps valid_def ARRAY_FREE_def block_at_def
           split: option.splits if_splits)

lemma null_iff_empty_zero: "null_iff_empty array_zero"
  by (simp add: null_iff_empty_def array_zero_def)

lemma valid_nonempty: "valid h a \<Longrightarrow> 0 < count a \<Longrightarrow> null_iff_empty a"
  by (auto simp: valid_def null_iff_empty_def)

lemma null_iff_empty_example: "null_iff_empty example_array"
  by (simp add: null_iff_empty_def example_array_def NULL_def)

lemma array_view_copy_loop_result:
  assumes "result \<noteq> NULL" "blocks h result = Some xs" "length xs = view_count v"
    "i \<le> view_count v"
  shows "case array_view_copy_loop b m v result i h of
           Inl e \<Rightarrow> False
         | Inr h' \<Rightarrow>
             blocks h' result =
               Some (take i xs @
                     map (\<lambda>j. b (view_data v + j * view_stride v + view_offset v))
                       [i..<view_count v])"
  using assms
proof (induction "view_count v - i" arbitrary: i h xs)
  case 0
  then show ?case by (simp add: array_view_copy_loop.simps)
next
  case (Suc n)
  let ?f = "\<lambda>j. b (view_data v + j * view_stride v + view_offset v)"
  from Suc.hyps(2) have lt: "i < view_count v" and n: "n = view_count v - (i + 1)" by simp_all
  let ?h1 = "h\<lparr>blocks := (blocks h)(result \<mapsto> xs[i := ?f i])\<rparr>"
  from Suc.prems lt
  have st: "store result i (read_lvalue b m (array_view_get v i)) h = Inr ?h1"
    by (simp add: store_def block_at_def array_view_get_def)
  have step: "array_view_copy_loop b m v result i h = array_view_copy_loop b m v result (i + 1) ?h1"
    using lt st by (subst array_view_copy_loop.simps) simp
  have eq: "take (i + 1) (xs[i := ?f i]) @ map ?f [i + 1..<view_count v] =
            take i xs @ map ?f [i..<view_count v]"
    using Suc.prems lt by (simp add: take_Suc_conv_app_nth upt_conv_Cons)
  have "case array_view_copy_loop b m v result (i + 1) ?h1 of
           Inl e \<Rightarrow> False
         | Inr h' \<Rightarrow>
             blocks h' result = Some (take (i + 1) (xs[i := ?f i]) @ map ?f [i + 1..<view_count v])"
    using Suc.prems lt by (intro Suc.hyps(1) [OF n]) simp_all
  then show ?case unfolding eq step .
qed

text \<open>
  An item that refers to a cell of the array's own buffer, in an \<^verbatim>\<open>insert\<close> that does not
  grow: the copy from \<^verbatim>\<open>&item\<close> reads the cell as the shift has left it.
\<close>

lemma memcpy_one_cell:
  assumes "block_at h p = Some ys" "i < length ys" "j < length ys" "i \<noteq> j"
  shows "ARRAY_MEMCPY p i p j 1 h = store p i (ys ! j) h"
proof -
  from assms(3) have "take 1 (drop j ys) = [ys ! j]"
    by (simp add: take_Suc_conv_app_nth)
  moreover from assms(2) have "take i ys @ ys ! j # drop (Suc i) ys = ys[i := ys ! j]"
    by (simp add: upd_conv_take_nth_drop)
  ultimately show ?thesis
    using assms
    by (simp add: ARRAY_MEMCPY_def ARRAY_MEMMOVE_def load_range_def store_range_def store_def)
qed

lemma memmove_block:
  assumes "ARRAY_MEMMOVE p di p si n h = Inr h'" "block_at h p = Some xs"
  shows "\<exists>ys. block_at h' p = Some ys \<and> length ys = length xs"
  using assms
  by (auto simp: ARRAY_MEMMOVE_def load_range_def store_range_def block_at_def
           split: if_splits)

lemma insert_shift_alias:
  assumes "valid h a" "count a < capacity a" "i \<le> count a" "j < capacity a" "j \<noteq> i"
  shows "case ARRAY_MEMMOVE (data a) (i + 1) (data a) i (count a - i) h of
           Inl e \<Rightarrow> False
         | Inr h2 \<Rightarrow>
             (case write_item (data a) i (Inside (data a) j) h2 of
                Inl e \<Rightarrow> False
              | Inr h3 \<Rightarrow>
                  valid h3 (a\<lparr>count := count a + 1\<rparr>) \<and>
                  (\<exists>v. contents h3 (a\<lparr>count := count a + 1\<rparr>) =
                         take i (contents h a) @ v # drop i (contents h a)))"
proof -
  from assms(1,2) obtain xs where b: "block_at h (data a) = Some xs" "length xs = capacity a"
    by (auto simp: valid_def block_at_def split: option.splits if_splits)
  from insert_shift [OF assms(1-3), of "junk h"] obtain h2 where
    m: "ARRAY_MEMMOVE (data a) (i + 1) (data a) i (count a - i) h = Inr h2"
    by (auto split: sum.splits)
  from memmove_block [OF m b(1)] b(2) obtain ys where
    ys: "block_at h2 (data a) = Some ys" "length ys = capacity a"
    by auto
  from assms(2,3) have i: "i < length ys" using ys(2) by simp
  from assms(4) have j: "j < length ys" using ys(2) by simp
  from assms(5) have ne: "i \<noteq> j" by simp
  have w: "write_item (data a) i (Inside (data a) j) h2 = store (data a) i (ys ! j) h2"
    using memcpy_one_cell [OF ys(1) i j ne] by simp
  from insert_shift [OF assms(1-3), of "ys ! j"] m w show ?thesis
    by (auto split: sum.splits)
qed

text \<open>
  Whenever \<^verbatim>\<open>add\<close> or \<^verbatim>\<open>insert\<close> return, whatever the item refers to, they have
  written into the buffer: it is not null, and the capacity is not 0.
\<close>

lemma array_add_null_iff_empty:
  assumes "array_add item (h, a) = Inr (n, h', a')"
  shows "null_iff_empty a'"
proof -
  from assms obtain h1 a1 v where
    g: "(if count a + 1 \<ge> capacity a
         then array_resize (if capacity a * 2 < 4 then 4 else capacity a * 2) (h, a)
         else Inr (h, a)) = Inr (h1, a1)"
    and st: "store (data a1) (count a1) v h1 = Inr h'"
    and a': "a' = a1\<lparr>count := count a1 + 1\<rparr>"
    by (auto simp: array_add.simps split: sum.splits prod.splits)
  from store_not_null [OF st] have d: "data a1 \<noteq> NULL" .
  have "capacity a1 \<noteq> 0"
  proof (cases "count a + 1 \<ge> capacity a")
    case True
    with g array_resize_counters [of _ h a h1 a1] show ?thesis by (auto split: if_splits)
  next
    case False
    with g show ?thesis by auto
  qed
  with d a' show ?thesis by (simp add: null_iff_empty_def)
qed

lemma array_insert_null_iff_empty:
  assumes "array_insert i item (h, a) = Inr (h', a')"
  shows "null_iff_empty a'"
proof -
  from assms obtain h1 a1 h2 where
    g: "(if count a + 1 > capacity a
         then array_resize (if capacity a < 1 then 1 else capacity a * 2) (h, a)
         else Inr (h, a)) = Inr (h1, a1)"
    and w: "write_item (data a1) i item h2 = Inr h'"
    and a': "a' = a1\<lparr>count := count a1 + 1\<rparr>"
    by (auto simp: array_insert.simps split: sum.splits prod.splits if_splits)
  from write_item_not_null [OF w] have d: "data a1 \<noteq> NULL" .
  have "capacity a1 \<noteq> 0"
  proof (cases "count a + 1 > capacity a")
    case True
    with g array_resize_counters [of _ h a h1 a1] show ?thesis by (auto split: if_splits)
  next
    case False
    with g show ?thesis by auto
  qed
  with d a' show ?thesis by (simp add: null_iff_empty_def)
qed

section \<open>The claims\<close>

text \<open>
  C1. The claim: \<^verbatim>\<open>add\<close> grows the buffer only if \<open>count + 1\<close> would exceed \<open>capacity\<close>,
  so four \<^verbatim>\<open>add\<close> calls on the zeroed array reallocate at most once. The code tests
  \<^verbatim>\<open>count+1 >= capacity\<close>: after three calls the array has \<open>count = 3\<close> in the one
  allocation of capacity 4, and the fourth call, with \<open>count + 1 = capacity\<close>, allocates a
  second buffer of capacity 8 and moves the elements into it.
\<close>

theorem four_adds_reallocate_twice:
  "map_sum id (\<lambda>(h, a). (data a, count a, capacity a, next_id h))
     (add_all [10, 20, 30 :: nat] (heap_empty z j, array_zero)) = Inr (1, 3, 4, 1) \<and>
   map_sum id (\<lambda>(h, a). (data a, count a, capacity a, next_id h))
     (add_all [10, 20, 30, 40 :: nat] (heap_empty z j, array_zero)) = Inr (2, 4, 8, 2)"
  by (simp add: heap_empty_def array_zero_def array_simps eval_defs Let_def)

text \<open>
  The claim C5 at a concrete state. \<^verbatim>\<open>add\<close> takes \<^verbatim>\<open>const T &item\<close> and reads it after
  the growth. After \<^verbatim>\<open>add(10); add(20); add(30)\<close> the call \<^verbatim>\<open>add(a.get(0))\<close> passes a
  reference to cell 0 of the buffer; the call grows, \<^verbatim>\<open>resize\<close> releases that buffer, and
  the read of the item is an access to released memory: nothing is appended, and no
  \<^verbatim>\<open>get(3)\<close> returns the value 10 that was passed.
\<close>

theorem add_of_own_element_counterexample:
  "add_all [10, 20, 30] (heap_empty True 0, array_zero) = Inr (example_heap, example_array) \<and>
   array_get example_heap example_array 0 = Inr 10 \<and>
   array_add (Inside (data example_array) 0) (example_heap, example_array) = Inl Invalid_access"
proof -
  have "array_get example_heap example_array 0 = Inr 10"
    by (simp add: array_get_def load_def block_at_def NULL_def example_heap_def example_array_def)
  moreover
  have "array_add (Inside (data example_array) 0) (example_heap, example_array)
          = Inl Invalid_access"
    by (simp add: array_simps eval_defs Let_def example_heap_def example_array_def)
  ultimately show ?thesis using example_reached by simp
qed

text \<open>
  C5, as the code has it. From the zeroed array, in any heap, \<open>n\<close> consecutive \<^verbatim>\<open>add\<close>
  calls whose items are not references into the array's buffer all return, provided the
  byte size of a buffer of \<open>max(4, 2n)\<close> elements fits \<^verbatim>\<open>size_t\<close>; the array is valid
  afterwards, \<open>count\<close> is \<open>n\<close>, and \<^verbatim>\<open>get(i)\<close> is the \<open>i\<close>-th value added, for every
  \<open>i < n\<close>, whatever reallocations happened on the way.
\<close>

theorem adds_keep_insertion_order:
  assumes "0 < sizeof_T h" "sizeof_T h * max 4 (2 * length xs) \<le> SIZE_MAX"
  shows "\<exists>h' a'. add_all xs (h, array_zero) = Inr (h', a') \<and> valid h' a' \<and>
           count a' = length xs \<and> (\<forall>i<length xs. array_get h' a' i = Inr (xs ! i))"
proof -
  from assms(2) have b: "sizeof_T h * max 4 (2 * (count array_zero + length xs)) \<le> SIZE_MAX"
    by (simp add: array_zero_def)
  from add_all_valid [OF valid_array_zero assms(1) b] obtain h' a' where
    r: "add_all xs (h, array_zero) = Inr (h', a')" and v: "valid h' a'"
    and cs: "contents h' a' = contents h array_zero @ xs"
    and cn: "count a' = count array_zero + length xs"
    by (auto split: sum.splits prod.splits)
  have "contents h array_zero = []"
    by (simp add: contents_def array_zero_def block_at_def)
  with cs have cs': "contents h' a' = xs" by simp
  from cn have cn': "count a' = length xs" by (simp add: array_zero_def)
  from array_get_contents [OF v] cs' cn'
  have "\<forall>i<length xs. array_get h' a' i = Inr (xs ! i)" by simp
  with r v cn' show ?thesis by blast
qed

theorem adds_keep_insertion_order_witness:
  "0 < sizeof_T (heap_empty True (0 :: nat)) \<and>
   sizeof_T (heap_empty True (0 :: nat)) * max 4 (2 * length [10, 20, 30 :: nat]) \<le> SIZE_MAX \<and>
   (\<exists>h' a'. add_all [10, 20, 30 :: nat] (heap_empty True 0, array_zero) = Inr (h', a') \<and>
           valid h' a' \<and> count a' = 3 \<and> array_get h' a' 0 = Inr 10 \<and>
           array_get h' a' 1 = Inr 20 \<and> array_get h' a' 2 = Inr 30)"
proof -
  have s: "0 < sizeof_T (heap_empty True (0 :: nat))" by (simp add: heap_empty_def)
  have b: "sizeof_T (heap_empty True (0 :: nat)) * max 4 (2 * length [10, 20, 30 :: nat])
             \<le> SIZE_MAX"
    by (simp add: heap_empty_def SIZE_MAX_def)
  from adds_keep_insertion_order [OF s b]
  obtain h' a' where
    r: "add_all [10, 20, 30 :: nat] (heap_empty True 0, array_zero) = Inr (h', a')"
    and v: "valid h' a'"
    and c: "count a' = length [10, 20, 30 :: nat]"
    and g: "\<forall>i<length [10, 20, 30 :: nat]. array_get h' a' i = Inr ([10, 20, 30] ! i)"
    by blast
  from g have "array_get h' a' 0 = Inr 10" "array_get h' a' 1 = Inr 20"
    "array_get h' a' 2 = Inr 30"
    by simp_all
  with r v c s b show ?thesis by simp
qed

text \<open>
  The claim C6 at a concrete state. \<^verbatim>\<open>insert\<close> takes \<^verbatim>\<open>const T &item\<close> and copies from
  \<^verbatim>\<open>&item\<close> after the growth and after the shift. After \<^verbatim>\<open>insert(0, 10)\<close> on the zeroed
  array the buffer is full; \<^verbatim>\<open>insert(0, a.get(0))\<close> passes a reference to cell 0 of that
  buffer, \<^verbatim>\<open>resize\<close> releases it, and the copy reads released memory: the call does not
  return an array from which \<^verbatim>\<open>remove(0)\<close> could restore anything.
\<close>

theorem insert_of_own_element_counterexample:
  "array_insert 0 (Outside 10) (heap_empty True 0, array_zero) = Inr (full_heap, full_array) \<and>
   valid full_heap full_array \<and> 0 \<le> count full_array \<and>
   array_get full_heap full_array 0 = Inr 10 \<and>
   array_insert 0 (Inside (data full_array) 0) (full_heap, full_array) = Inl Invalid_access"
proof -
  have "array_insert 0 (Outside 10) (heap_empty True 0, array_zero) = Inr (full_heap, full_array)"
    by (simp add: array_simps eval_defs Let_def heap_empty_def array_zero_def full_heap_def
          full_array_def)
  moreover have "valid full_heap full_array"
    by (simp add: valid_def full_heap_def full_array_def NULL_def)
  moreover have "array_get full_heap full_array 0 = Inr 10"
    by (simp add: array_get_def load_def block_at_def NULL_def full_heap_def full_array_def)
  moreover
  have "array_insert 0 (Inside (data full_array) 0) (full_heap, full_array) = Inl Invalid_access"
    by (simp add: array_simps eval_defs Let_def full_heap_def full_array_def)
  ultimately show ?thesis by simp
qed

text \<open>
  C6, as the code has it. On a valid array, for every index \<open>i\<close> in \<open>[0, count]\<close>,
  \<^verbatim>\<open>insert(i, x)\<close> returns and \<^verbatim>\<open>remove(i)\<close> after it returns, and the array is then
  valid with the count it had and the same element at every index (the capacity may have
  grown), when \<open>x\<close> is not a reference into an allocation and the byte size of the grown
  buffer, if the call grows, fits \<^verbatim>\<open>size_t\<close>; and also when \<open>x\<close> refers to a cell
  \<open>j \<noteq> i\<close> of the array's own buffer and the call does not grow.
\<close>

theorem insert_then_remove_restores:
  assumes "valid h a" "i \<le> count a" "0 < sizeof_T h"
    and "capacity a < count a + 1 \<longrightarrow>
           sizeof_T h * (if capacity a < 1 then 1 else capacity a * 2) \<le> SIZE_MAX"
    and "(\<exists>x. item = Outside x) \<or>
         (\<exists>j. item = Inside (data a) j \<and> j < capacity a \<and> j \<noteq> i \<and> count a < capacity a)"
  shows "\<exists>s1 h2 a2. array_insert i item (h, a) = Inr s1 \<and> array_remove i s1 = Inr (h2, a2) \<and>
           valid h2 a2 \<and> count a2 = count a \<and> contents h2 a2 = contents h a \<and>
           (\<forall>j<count a. array_get h2 a2 j = array_get h a j)"
proof -
  have "\<exists>h1 a1 v. array_insert i item (h, a) = Inr (h1, a1) \<and> valid h1 a1 \<and>
          contents h1 a1 = take i (contents h a) @ v # drop i (contents h a) \<and>
          count a1 = count a + 1"
    using assms(5)
  proof
    assume "\<exists>x. item = Outside x"
    then obtain x where x: "item = Outside x" ..
    from array_insert_valid [OF assms(1-4), of x] x show ?thesis
      by (auto split: sum.splits prod.splits)
  next
    assume "\<exists>j. item = Inside (data a) j \<and> j < capacity a \<and> j \<noteq> i \<and> count a < capacity a"
    then obtain j where j: "item = Inside (data a) j" "j < capacity a" "j \<noteq> i"
      "count a < capacity a"
      by blast
    from insert_shift_alias [OF assms(1) j(4) assms(2) j(2,3)] obtain h2 h3 v where
      m: "ARRAY_MEMMOVE (data a) (i + 1) (data a) i (count a - i) h = Inr h2"
      and w: "write_item (data a) i (Inside (data a) j) h2 = Inr h3"
      and v3: "valid h3 (a\<lparr>count := count a + 1\<rparr>)"
      and c3: "contents h3 (a\<lparr>count := count a + 1\<rparr>) =
                 take i (contents h a) @ v # drop i (contents h a)"
      by (auto split: sum.splits)
    from assms(2) j(1,4) m w
    have "array_insert i item (h, a) = Inr (h3, a\<lparr>count := count a + 1\<rparr>)"
      by (simp add: array_insert.simps)
    with v3 c3 show ?thesis by auto
  qed
  then obtain h1 a1 v where
    ins: "array_insert i item (h, a) = Inr (h1, a1)" and v1: "valid h1 a1"
    and cs1: "contents h1 a1 = take i (contents h a) @ v # drop i (contents h a)"
    and cn1: "count a1 = count a + 1"
    by blast
  from assms(2) cn1 have lt: "i < count a1" by simp
  from array_remove_valid [OF v1 lt] obtain h2 a2 where
    rem: "array_remove i (h1, a1) = Inr (h2, a2)" and v2: "valid h2 a2"
    and cs2: "contents h2 a2 = take i (contents h1 a1) @ drop (Suc i) (contents h1 a1)"
    and cn2: "count a2 = count a1 - 1"
    by (auto split: sum.splits prod.splits)
  from length_contents [OF assms(1)] assms(2) have len: "i \<le> length (contents h a)" by simp
  from cs1 cs2 len have cs: "contents h2 a2 = contents h a" by simp
  from cn1 cn2 have cn: "count a2 = count a" by simp
  have "\<forall>j<count a. array_get h2 a2 j = array_get h a j"
    using array_get_contents [OF v2] array_get_contents [OF assms(1)] cs cn by simp
  with ins rem v2 cs cn show ?thesis by blast
qed

theorem insert_then_remove_restores_witness:
  "valid example_heap example_array \<and> 1 \<le> count example_array \<and>
   0 < sizeof_T example_heap \<and> \<not> capacity example_array < count example_array + 1 \<and>
   (\<exists>s1 h2 a2. array_insert 1 (Outside 99) (example_heap, example_array) = Inr s1 \<and>
        array_remove 1 s1 = Inr (h2, a2) \<and> count a2 = 3 \<and> contents h2 a2 = [10, 20, 30]) \<and>
   2 < capacity example_array \<and> count example_array < capacity example_array \<and>
   (\<exists>s1 h2 a2. array_insert 1 (Inside (data example_array) 2) (example_heap, example_array)
          = Inr s1 \<and>
        array_remove 1 s1 = Inr (h2, a2) \<and> count a2 = 3 \<and> contents h2 a2 = [10, 20, 30])"
proof -
  have le: "1 \<le> count example_array" by (simp add: example_array_def)
  have sz: "0 < sizeof_T example_heap" by (simp add: example_heap_def)
  have c: "count example_array = 3" "capacity example_array = 4"
    by (simp_all add: example_array_def)
  from c have g: "capacity example_array < count example_array + 1 \<longrightarrow>
      sizeof_T example_heap * (if capacity example_array < 1 then 1 else capacity example_array * 2)
        \<le> SIZE_MAX"
    by simp
  have o: "(\<exists>x. Outside (99 :: nat) = Outside x) \<or>
         (\<exists>j. Outside (99 :: nat) = Inside (data example_array) j \<and> j < capacity example_array \<and>
              j \<noteq> 1 \<and> count example_array < capacity example_array)"
    by simp
  have n: "(\<exists>x :: nat. Inside (data example_array) 2 = Outside x) \<or>
         (\<exists>j. (Inside (data example_array) 2 :: nat item_ref) = Inside (data example_array) j \<and>
              j < capacity example_array \<and>
              j \<noteq> 1 \<and> count example_array < capacity example_array)"
    using c by simp
  from insert_then_remove_restores [OF valid_example le sz g o]
    insert_then_remove_restores [OF valid_example le sz g n]
  show ?thesis
    using valid_example le sz c contents_example by auto
qed

text \<open>
  The claim C7 at a concrete state. \<^verbatim>\<open>resize\<close> requests \<^verbatim>\<open>sizeof(T) * to_capacity\<close> bytes,
  a product in \<^verbatim>\<open>size_t\<close>. With three elements of four bytes each in the array,
  \<^verbatim>\<open>resize(2^62)\<close> has \<open>k \<ge> count\<close> and requests \<open>2^64 mod 2^64 = 0\<close> bytes; the copy of the
  three elements into that allocation is an access outside it. The call does not return
  an array that holds the three elements.
\<close>

theorem resize_wraps_counterexample:
  "valid example_heap example_array \<and> count example_array \<le> 2 ^ 62 \<and>
   size_t_mul (sizeof_T example_heap) (2 ^ 62) = 0 \<and>
   array_resize (2 ^ 62) (example_heap, example_array) = Inl Invalid_access"
proof -
  have "count example_array \<le> 2 ^ 62" by (simp add: example_array_def)
  moreover have "size_t_mul (sizeof_T example_heap) (2 ^ 62) = 0"
    by (simp add: size_t_mul_def example_heap_def)
  moreover have "array_resize (2 ^ 62) (example_heap, example_array) = Inl Invalid_access"
    by (simp add: array_resize.simps eval_defs Let_def example_heap_def example_array_def)
  ultimately show ?thesis using valid_example by simp
qed

text \<open>
  C7, as the code has it. On a valid array, when \<^verbatim>\<open>sizeof(T) * k\<close> fits \<^verbatim>\<open>size_t\<close>,
  \<^verbatim>\<open>resize(k)\<close> returns a valid array with capacity \<open>k\<close>; when \<open>k < count\<close> the count
  becomes \<open>k\<close> and the first \<open>k\<close> elements are as before, and when \<open>k \<ge> count\<close> the count
  and all \<open>count\<close> elements are as before.
\<close>

theorem resize_keeps_prefix:
  assumes "valid h a" "0 < sizeof_T h" "sizeof_T h * k \<le> SIZE_MAX"
  shows "\<exists>h' a'. array_resize k (h, a) = Inr (h', a') \<and> valid h' a' \<and> capacity a' = k \<and>
           (k < count a \<longrightarrow> count a' = k \<and> (\<forall>i<k. array_get h' a' i = array_get h a i)) \<and>
           (count a \<le> k \<longrightarrow>
              count a' = count a \<and> (\<forall>i<count a. array_get h' a' i = array_get h a i))"
proof -
  from array_resize_valid [OF assms] obtain h' a' where
    r: "array_resize k (h, a) = Inr (h', a')" and v: "valid h' a'"
    and cs: "contents h' a' = take k (contents h a)" and cn: "count a' = min (count a) k"
    and cp: "capacity a' = k"
    by (auto split: sum.splits prod.splits)
  have g: "\<forall>i<count a'. array_get h' a' i = array_get h a i"
    using array_get_contents [OF v] array_get_contents [OF assms(1)] cs cn by simp
  from cn have "k < count a \<longrightarrow> count a' = k" "count a \<le> k \<longrightarrow> count a' = count a" by auto
  with r v cp g show ?thesis by auto
qed

theorem resize_keeps_prefix_witness:
  "valid example_heap example_array \<and> 0 < sizeof_T example_heap \<and>
   sizeof_T example_heap * 2 \<le> SIZE_MAX \<and> 2 < count example_array \<and>
   (\<exists>h' a'. array_resize 2 (example_heap, example_array) = Inr (h', a') \<and> valid h' a' \<and>
        capacity a' = 2 \<and> count a' = 2 \<and> array_get h' a' 0 = Inr 10 \<and>
        array_get h' a' 1 = Inr 20) \<and>
   sizeof_T example_heap * 5 \<le> SIZE_MAX \<and> count example_array \<le> 5 \<and>
   (\<exists>h' a'. array_resize 5 (example_heap, example_array) = Inr (h', a') \<and> valid h' a' \<and>
        capacity a' = 5 \<and> count a' = 3 \<and> array_get h' a' 0 = Inr 10 \<and>
        array_get h' a' 1 = Inr 20 \<and> array_get h' a' 2 = Inr 30)"
proof -
  have g: "array_get example_heap example_array 0 = Inr 10"
    "array_get example_heap example_array 1 = Inr 20"
    "array_get example_heap example_array 2 = Inr 30"
    by (simp_all add: array_get_def load_def block_at_def example_heap_def example_array_def
          NULL_def)
  have c: "count example_array = 3" by (simp add: example_array_def)
  have sz: "0 < sizeof_T example_heap" by (simp add: example_heap_def)
  have b2: "sizeof_T example_heap * 2 \<le> SIZE_MAX" by (simp add: example_heap_def SIZE_MAX_def)
  have b5: "sizeof_T example_heap * 5 \<le> SIZE_MAX" by (simp add: example_heap_def SIZE_MAX_def)
  from resize_keeps_prefix [OF valid_example sz b2] obtain h' a' where
    r: "array_resize 2 (example_heap, example_array) = Inr (h', a')" "valid h' a'"
      "capacity a' = 2"
    and lt: "2 < count example_array \<longrightarrow>
               count a' = 2 \<and>
               (\<forall>i<2. array_get h' a' i = array_get example_heap example_array i)"
    by blast
  from lt c have "count a' = 2" "array_get h' a' 0 = array_get example_heap example_array 0"
    "array_get h' a' 1 = array_get example_heap example_array 1"
    by simp_all
  with r g have shrink: "\<exists>h' a'. array_resize 2 (example_heap, example_array) = Inr (h', a') \<and>
        valid h' a' \<and> capacity a' = 2 \<and> count a' = 2 \<and> array_get h' a' 0 = Inr 10 \<and>
        array_get h' a' 1 = Inr 20"
    by auto
  from resize_keeps_prefix [OF valid_example sz b5] obtain h2 a2 where
    r2: "array_resize 5 (example_heap, example_array) = Inr (h2, a2)" "valid h2 a2"
      "capacity a2 = 5"
    and ge: "count example_array \<le> 5 \<longrightarrow>
               count a2 = count example_array \<and>
               (\<forall>i<count example_array.
                   array_get h2 a2 i = array_get example_heap example_array i)"
    by blast
  from ge c have "count a2 = 3" "array_get h2 a2 0 = array_get example_heap example_array 0"
    "array_get h2 a2 1 = array_get example_heap example_array 1"
    "array_get h2 a2 2 = array_get example_heap example_array 2"
    by simp_all
  with r2 g have grow: "\<exists>h' a'. array_resize 5 (example_heap, example_array) = Inr (h', a') \<and>
        valid h' a' \<and> capacity a' = 5 \<and> count a' = 3 \<and> array_get h' a' 0 = Inr 10 \<and>
        array_get h' a' 1 = Inr 20 \<and> array_get h' a' 2 = Inr 30"
    by auto
  from valid_example sz b2 b5 c shrink grow show ?thesis by simp
qed

text \<open>
  C9. On a valid array \<^verbatim>\<open>reverse()\<close> returns with \<open>count\<close> and \<open>capacity\<close> unchanged,
  and \<^verbatim>\<open>get(i)\<close> afterwards is what \<^verbatim>\<open>get(count-1-i)\<close> was before, for every
  \<open>i < count\<close>; a second \<^verbatim>\<open>reverse()\<close> returns too and gives back the original
  sequence.
\<close>

theorem reverse_mirrors_and_is_involutive:
  assumes "valid h a"
  shows "\<exists>h1 a1 h2 a2.
           array_reverse (h, a) = Inr (h1, a1) \<and>
           count a1 = count a \<and> capacity a1 = capacity a \<and>
           (\<forall>i<count a. array_get h1 a1 i = array_get h a (count a - 1 - i)) \<and>
           array_reverse (h1, a1) = Inr (h2, a2) \<and>
           count a2 = count a \<and> capacity a2 = capacity a \<and>
           contents h2 a2 = contents h a \<and>
           (\<forall>i<count a. array_get h2 a2 i = array_get h a i)"
proof -
  from array_reverse_valid [OF assms] obtain h1 where
    r1: "array_reverse (h, a) = Inr (h1, a)" and v1: "valid h1 a"
    and c1: "contents h1 a = rev (contents h a)"
    by (auto split: sum.splits prod.splits)
  from array_reverse_valid [OF v1] obtain h2 where
    r2: "array_reverse (h1, a) = Inr (h2, a)" and v2: "valid h2 a"
    and c2: "contents h2 a = rev (contents h1 a)"
    by (auto split: sum.splits prod.splits)
  from c1 c2 have c: "contents h2 a = contents h a" by simp
  have len: "length (contents h a) = count a" by (rule length_contents [OF assms])
  have g1: "\<forall>i<count a. array_get h1 a i = array_get h a (count a - 1 - i)"
    using array_get_contents [OF v1] array_get_contents [OF assms] c1 len
    by (simp add: rev_nth)
  have g2: "\<forall>i<count a. array_get h2 a i = array_get h a i"
    using array_get_contents [OF v2] array_get_contents [OF assms] c by simp
  from r1 r2 c g1 g2 show ?thesis by blast
qed

theorem reverse_mirrors_and_is_involutive_witness:
  "valid example_heap example_array \<and>
   (\<exists>h1 a1 h2 a2.
      array_reverse (example_heap, example_array) = Inr (h1, a1) \<and>
      array_get h1 a1 0 = Inr 30 \<and> array_get h1 a1 1 = Inr 20 \<and> array_get h1 a1 2 = Inr 10 \<and>
      array_reverse (h1, a1) = Inr (h2, a2) \<and> contents h2 a2 = [10, 20, 30])"
proof -
  have g: "array_get example_heap example_array 0 = Inr 10"
    "array_get example_heap example_array 1 = Inr 20"
    "array_get example_heap example_array 2 = Inr 30"
    by (simp_all add: array_get_def load_def block_at_def example_heap_def example_array_def
          NULL_def)
  from reverse_mirrors_and_is_involutive [OF valid_example] obtain h1 a1 h2 a2 where
    r: "array_reverse (example_heap, example_array) = Inr (h1, a1)"
      "array_reverse (h1, a1) = Inr (h2, a2)"
      "contents h2 a2 = contents example_heap example_array"
    and m: "\<forall>i<count example_array.
              array_get h1 a1 i = array_get example_heap example_array (count example_array - 1 - i)"
    by blast
  from m g have "array_get h1 a1 0 = Inr 30" "array_get h1 a1 1 = Inr 20"
    "array_get h1 a1 2 = Inr 10"
    by (simp_all add: example_array_def)
  with r valid_example contents_example show ?thesis by auto
qed

text \<open>
  C10. \<^verbatim>\<open>clear\<close>, \<^verbatim>\<open>set\<close>, \<^verbatim>\<open>pop\<close>, \<^verbatim>\<open>remove\<close>, \<^verbatim>\<open>reverse\<close> and \<^verbatim>\<open>each\<close>, from
  any state and whenever they return, leave the data pointer and the capacity as they
  were and neither allocate nor release memory; so do \<^verbatim>\<open>add\<close> and \<^verbatim>\<open>insert\<close> when their
  growth test is false. (\<^verbatim>\<open>get\<close> is a read: it has no state to return.) What remains,
  and only that, reaches the allocator: \<^verbatim>\<open>resize\<close>, \<^verbatim>\<open>free\<close>, \<^verbatim>\<open>copy\<close>, and
  \<^verbatim>\<open>add\<close> and \<^verbatim>\<open>insert\<close> through \<^verbatim>\<open>resize\<close> when they grow.
\<close>

theorem no_reallocation_outside_growth:
  "unmoved s (array_clear s) \<and>
   (\<forall>s'. array_set i v s = Inr s' \<longrightarrow> unmoved s s') \<and>
   (\<forall>s'. array_pop s = Inr s' \<longrightarrow> unmoved s s') \<and>
   (\<forall>s'. array_remove i s = Inr s' \<longrightarrow> unmoved s s') \<and>
   (\<forall>s'. array_reverse s = Inr s' \<longrightarrow> unmoved s s') \<and>
   (\<forall>s'. array_each e s = Inr s' \<longrightarrow> unmoved s s') \<and>
   (\<forall>k s'. \<not> count (snd s) + 1 \<ge> capacity (snd s) \<longrightarrow> array_add item s = Inr (k, s') \<longrightarrow>
      unmoved s s') \<and>
   (\<forall>s'. \<not> count (snd s) + 1 > capacity (snd s) \<longrightarrow> array_insert i item s = Inr s' \<longrightarrow>
      unmoved s s')"
proof -
  obtain h a where s: "s = (h, a)" by (cases s)
  have "unmoved s (array_clear s)"
    by (simp add: s array_clear.simps unmoved_def same_allocations_refl)
  moreover have "\<forall>s'. array_set i v s = Inr s' \<longrightarrow> unmoved s s'"
    using array_set_unmoved [of i v h a] by (simp add: s unmoved_def)
  moreover have "\<forall>s'. array_pop s = Inr s' \<longrightarrow> unmoved s s'"
    using array_remove_unmoved by (auto simp: s array_pop.simps)
  moreover have "\<forall>s'. array_remove i s = Inr s' \<longrightarrow> unmoved s s'"
    using array_remove_unmoved by blast
  moreover have "\<forall>s'. array_reverse s = Inr s' \<longrightarrow> unmoved s s'"
    using array_reverse_loop_unmoved [of 0 h a] by (simp add: s array_reverse_def unmoved_def)
  moreover have "\<forall>s'. array_each e s = Inr s' \<longrightarrow> unmoved s s'"
    using array_each_loop_unmoved [of e 0 h a] by (simp add: s array_each_def unmoved_def)
  moreover have "\<forall>k s'. \<not> count (snd s) + 1 \<ge> capacity (snd s) \<longrightarrow>
      array_add item s = Inr (k, s') \<longrightarrow> unmoved s s'"
    by (auto simp: s array_add.simps unmoved_def dest: store_same_allocations
             split: sum.splits)
  moreover have "\<forall>s'. \<not> count (snd s) + 1 > capacity (snd s) \<longrightarrow>
      array_insert i item s = Inr s' \<longrightarrow> unmoved s s'"
    by (auto simp: s array_insert.simps unmoved_def
             dest: write_item_same_allocations memmove_same_allocations
             intro: same_allocations_trans split: sum.splits if_splits)
  ultimately show ?thesis by blast
qed

theorem no_reallocation_outside_growth_witness:
  "(\<exists>s'. array_set 0 7 (example_heap, example_array) = Inr s' \<and>
         unmoved (example_heap, example_array) s') \<and>
   (\<exists>s'. array_pop (example_heap, example_array) = Inr s' \<and>
         unmoved (example_heap, example_array) s') \<and>
   (\<exists>s'. array_remove 0 (example_heap, example_array) = Inr s' \<and>
         unmoved (example_heap, example_array) s') \<and>
   (\<exists>s'. array_reverse (example_heap, example_array) = Inr s' \<and>
         unmoved (example_heap, example_array) s') \<and>
   (\<exists>s'. array_each Suc (example_heap, example_array) = Inr s' \<and>
         unmoved (example_heap, example_array) s') \<and>
   \<not> count (example_array\<lparr>count := 2\<rparr>) + 1 \<ge> capacity (example_array\<lparr>count := 2\<rparr>) \<and>
   (\<exists>k s'. array_add (Outside 99) (example_heap, example_array\<lparr>count := 2\<rparr>) = Inr (k, s') \<and>
         unmoved (example_heap, example_array\<lparr>count := 2\<rparr>) s') \<and>
   (\<exists>s'. array_insert 1 (Outside 99) (example_heap, example_array\<lparr>count := 2\<rparr>) = Inr s' \<and>
         unmoved (example_heap, example_array\<lparr>count := 2\<rparr>) s')"
proof -
  let ?S = "(example_heap, example_array)"
  let ?S2 = "(example_heap, example_array\<lparr>count := 2\<rparr>)"
  note t1 = no_reallocation_outside_growth [of ?S 0 7 Suc "Outside 99"]
  note t2 = no_reallocation_outside_growth [of ?S2 1 99 Suc "Outside 99"]
  have c: "count example_array = 3" "capacity example_array = 4"
    by (simp_all add: example_array_def)
  have "\<exists>s'. array_set 0 7 ?S = Inr s'"
    using array_set_valid [OF valid_example, of 0 7] c by (auto split: sum.splits)
  with t1 have 1: "\<exists>s'. array_set 0 7 ?S = Inr s' \<and> unmoved ?S s'" by blast
  have "\<exists>s'. array_pop ?S = Inr s'"
    using array_remove_valid [OF valid_example, of 2] c
    by (auto simp: array_pop.simps split: sum.splits)
  with t1 have 2: "\<exists>s'. array_pop ?S = Inr s' \<and> unmoved ?S s'" by blast
  have "\<exists>s'. array_remove 0 ?S = Inr s'"
    using array_remove_valid [OF valid_example, of 0] c by (auto split: sum.splits)
  with t1 have 3: "\<exists>s'. array_remove 0 ?S = Inr s' \<and> unmoved ?S s'" by blast
  have "\<exists>s'. array_reverse ?S = Inr s'"
    using array_reverse_valid [OF valid_example] by (auto split: sum.splits)
  with t1 have 4: "\<exists>s'. array_reverse ?S = Inr s' \<and> unmoved ?S s'" by blast
  have "\<exists>s'. array_each Suc ?S = Inr s'"
    by (simp add: array_each_def array_each_loop.simps load_def store_def block_at_def
          example_heap_def example_array_def NULL_def)
  with t1 have 5: "\<exists>s'. array_each Suc ?S = Inr s' \<and> unmoved ?S s'" by blast
  have 6: "\<not> count (example_array\<lparr>count := 2\<rparr>) + 1 \<ge> capacity (example_array\<lparr>count := 2\<rparr>)"
    by (simp add: example_array_def)
  have sz: "0 < sizeof_T example_heap" by (simp add: example_heap_def)
  have "\<exists>k s'. array_add (Outside 99) ?S2 = Inr (k, s')"
    using array_add_valid [OF valid_example_two sz, of 99]
    by (auto simp: example_array_def split: sum.splits)
  with t2 6 have 7: "\<exists>k s'. array_add (Outside 99) ?S2 = Inr (k, s') \<and> unmoved ?S2 s'"
    by (simp del: One_nat_def) blast
  have "\<exists>s'. array_insert 1 (Outside 99) ?S2 = Inr s'"
    using array_insert_valid [OF valid_example_two _ sz, of 1 99]
    by (auto simp: example_array_def split: sum.splits)
  with t2 6 have 8: "\<exists>s'. array_insert 1 (Outside 99) ?S2 = Inr s' \<and> unmoved ?S2 s'"
    by (simp del: One_nat_def) blast
  from 1 2 3 4 5 6 7 8 show ?thesis by blast
qed

text \<open>
  The claim C2 at a concrete state: after \<^verbatim>\<open>add(10); add(20); add(30); clear()\<close> the
  count is 0, so every index violates the precondition of \<^verbatim>\<open>get\<close>, \<^verbatim>\<open>operator[]\<close>
  and \<^verbatim>\<open>set\<close>, and \<^verbatim>\<open>last\<close> is called on an empty array. \<^verbatim>\<open>get(0)\<close> and
  \<^verbatim>\<open>operator[](0)\<close> return the stale 10 as a normal value, \<^verbatim>\<open>set(0, 7)\<close> writes the
  cell, and \<^verbatim>\<open>last()\<close> indexes the buffer at \<^verbatim>\<open>SIZE_MAX\<close>; with three elements,
  \<^verbatim>\<open>get(4)\<close> reads past the allocation. No assertion is involved in any of them.
\<close>

theorem unchecked_access_counterexample:
  "array_clear (example_heap, example_array) = (example_heap, example_array\<lparr>count := 0\<rparr>) \<and>
   count (example_array\<lparr>count := 0\<rparr>) = 0 \<and>
   array_get example_heap (example_array\<lparr>count := 0\<rparr>) 0 = Inr 10 \<and>
   array_index example_heap (example_array\<lparr>count := 0\<rparr>) 0 = Inr 10 \<and>
   map_sum id (\<lambda>(h, a). array_get h a 0) (array_set 0 7 (example_heap, example_array\<lparr>count := 0\<rparr>))
     = Inr (Inr 7) \<and>
   array_last example_heap (example_array\<lparr>count := 0\<rparr>) = Inl Invalid_access \<and>
   array_get example_heap example_array 4 = Inl Invalid_access"
  by (simp add: array_clear.simps array_get_def array_index_def array_last_def array_set.simps
        load_def store_def block_at_def example_heap_def example_array_def NULL_def SIZE_MAX_def)

text \<open>
  C2, as the code has it. \<^verbatim>\<open>remove\<close> with an index not below \<open>count\<close> (so on an empty
  array with any index, and \<^verbatim>\<open>pop\<close> on an empty array, whose index wraps to
  \<^verbatim>\<open>SIZE_MAX\<close>) and \<^verbatim>\<open>insert\<close> with an index above \<open>count\<close> fail the assertion.
  \<^verbatim>\<open>get\<close>, \<^verbatim>\<open>operator[]\<close>, \<^verbatim>\<open>last\<close> and \<^verbatim>\<open>set\<close> contain no assertion: whatever the
  index, the outcome is never a failed assertion. On a valid array an index below
  \<open>capacity\<close> is read or written as a normal access, also when it is not below \<open>count\<close>;
  an index from \<open>capacity\<close> on, and \<^verbatim>\<open>last\<close> on an empty array, is an access outside
  the buffer.
\<close>

theorem checked_and_unchecked_preconditions:
  "(\<not> i < count a \<longrightarrow> array_remove i (h, a) = Inl Assert_failed) \<and>
   (count a = 0 \<longrightarrow> array_pop (h, a) = Inl Assert_failed) \<and>
   (\<not> i \<le> count a \<longrightarrow> array_insert i item (h, a) = Inl Assert_failed) \<and>
   array_get h a i \<noteq> Inl Assert_failed \<and>
   array_index h a i \<noteq> Inl Assert_failed \<and>
   array_last h a \<noteq> Inl Assert_failed \<and>
   array_set i x (h, a) \<noteq> Inl Assert_failed \<and>
   (valid h a \<and> i < capacity a \<longrightarrow>
      \<not> isl (array_get h a i) \<and> \<not> isl (array_index h a i) \<and> \<not> isl (array_set i x (h, a))) \<and>
   (valid h a \<and> capacity a \<le> i \<longrightarrow>
      array_get h a i = Inl Invalid_access \<and> array_index h a i = Inl Invalid_access \<and>
      array_set i x (h, a) = Inl Invalid_access) \<and>
   (valid h a \<and> count a = 0 \<and> capacity a \<le> SIZE_MAX \<longrightarrow> array_last h a = Inl Invalid_access)"
proof -
  have checks: "(\<not> i < count a \<longrightarrow> array_remove i (h, a) = Inl Assert_failed) \<and>
   (count a = 0 \<longrightarrow> array_pop (h, a) = Inl Assert_failed) \<and>
   (\<not> i \<le> count a \<longrightarrow> array_insert i item (h, a) = Inl Assert_failed)"
    by (simp add: array_remove.simps array_pop.simps array_insert.simps)
  have none: "array_get h a i \<noteq> Inl Assert_failed \<and>
   array_index h a i \<noteq> Inl Assert_failed \<and>
   array_last h a \<noteq> Inl Assert_failed \<and>
   array_set i x (h, a) \<noteq> Inl Assert_failed"
    by (auto simp: array_get_def array_index_def array_last_def array_set.simps load_def
          store_def split: option.splits sum.splits)
  have inside: "valid h a \<and> i < capacity a \<longrightarrow>
      \<not> isl (array_get h a i) \<and> \<not> isl (array_index h a i) \<and> \<not> isl (array_set i x (h, a))"
    by (auto simp: valid_def array_get_def array_index_def array_set.simps load_def store_def
          block_at_def split: option.splits if_splits)
  have outside: "valid h a \<and> capacity a \<le> i \<longrightarrow>
      array_get h a i = Inl Invalid_access \<and> array_index h a i = Inl Invalid_access \<and>
      array_set i x (h, a) = Inl Invalid_access"
    by (auto simp: valid_def array_get_def array_index_def array_set.simps load_def store_def
          block_at_def split: option.splits if_splits)
  have lst: "valid h a \<and> count a = 0 \<and> capacity a \<le> SIZE_MAX \<longrightarrow>
      array_last h a = Inl Invalid_access"
    by (auto simp: valid_def array_last_def load_def block_at_def
          split: option.splits if_splits)
  from checks none inside outside lst show ?thesis by blast
qed

theorem checked_and_unchecked_preconditions_witness:
  "array_remove 3 (example_heap, example_array) = Inl Assert_failed \<and>
   array_pop (example_heap, example_array\<lparr>count := 0\<rparr>) = Inl Assert_failed \<and>
   array_insert 4 (Outside 99) (example_heap, example_array) = Inl Assert_failed \<and>
   array_get example_heap example_array 3 \<noteq> Inl Assert_failed \<and>
   valid example_heap example_array \<and> 3 < capacity example_array \<and>
   \<not> isl (array_get example_heap example_array 3) \<and>
   capacity example_array \<le> 4 \<and>
   array_get example_heap example_array 4 = Inl Invalid_access \<and>
   valid example_heap (example_array\<lparr>count := 0\<rparr>) \<and>
   capacity (example_array\<lparr>count := 0\<rparr>) \<le> SIZE_MAX \<and>
   array_last example_heap (example_array\<lparr>count := 0\<rparr>) = Inl Invalid_access"
proof -
  have v0: "valid example_heap (example_array\<lparr>count := 0\<rparr>)"
    by (simp add: valid_def example_heap_def example_array_def NULL_def)
  have c: "capacity example_array = 4" "count example_array = 3"
    "capacity (example_array\<lparr>count := 0\<rparr>) \<le> SIZE_MAX"
    by (simp_all add: example_array_def SIZE_MAX_def)
  from checked_and_unchecked_preconditions [of 3 example_array example_heap "Outside 99" 99]
    checked_and_unchecked_preconditions [of 4 example_array example_heap "Outside 99" 99]
    checked_and_unchecked_preconditions
      [of 0 "example_array\<lparr>count := 0\<rparr>" example_heap "Outside 99" 99]
    valid_example v0 c
  show ?thesis by simp
qed

text \<open>
  The claim C3 at two concrete states. With an allocator that answers a zero-byte request
  by a fresh non-null pointer, \<^verbatim>\<open>resize(0)\<close> on the zeroed array, and \<^verbatim>\<open>copy()\<close> of it, give
  an array with capacity 0 whose \<open>data\<close> is not null. With an allocator that answers it by
  null and a \<open>T\<close> of four bytes, \<^verbatim>\<open>resize(2^62)\<close> on the zeroed array requests
  \<open>2^64 mod 2^64 = 0\<close> bytes and gives an array with capacity \<open>2^62\<close> whose \<open>data\<close> is null.
\<close>

theorem malloc_zero_counterexample:
  "null_iff_empty array_zero \<and>
   map_sum id (\<lambda>(h, a). (data a = NULL, capacity a, null_iff_empty a))
     (array_resize 0 (heap_empty False (0 :: nat), array_zero)) = Inr (False, 0, False) \<and>
   map_sum id (\<lambda>(h, c). (data c = NULL, capacity c, null_iff_empty c))
     (array_copy (heap_empty False (0 :: nat), array_zero)) = Inr (False, 0, False) \<and>
   map_sum id (\<lambda>(h, a). (data a = NULL, capacity a, null_iff_empty a))
     (array_resize (2 ^ 62) (heap_empty True (0 :: nat), array_zero)) = Inr (True, 2 ^ 62, False)"
  by (simp add: null_iff_empty_def array_zero_def heap_empty_def array_resize.simps
        array_copy.simps eval_defs Let_def)

text \<open>
  C3, as the code has it. The predicate holds in the zeroed state. On a valid array that
  satisfies it:
  \<^item> \<^verbatim>\<open>free\<close>, \<^verbatim>\<open>remove\<close>, \<^verbatim>\<open>pop\<close>, \<^verbatim>\<open>clear\<close> and \<^verbatim>\<open>reverse\<close> keep it (and validity)
    whenever they return, and they return unless an assertion fails;
  \<^item> \<^verbatim>\<open>add\<close> and \<^verbatim>\<open>insert\<close> keep it whenever they return, whatever the item refers to;
    with an item that is not a reference into an allocation, and a grown buffer whose byte
    size fits \<^verbatim>\<open>size_t\<close>, they return (\<^verbatim>\<open>insert\<close> unless its assertion fails) and keep
    validity too;
  \<^item> \<^verbatim>\<open>resize(k)\<close> and \<^verbatim>\<open>copy\<close>, when the byte size of the capacity they allocate for
    fits \<^verbatim>\<open>size_t\<close>, return, and keep it exactly when that capacity is not 0 or the
    allocator answers a zero-byte request by null: \<open>data\<close> becomes whatever
    \<^verbatim>\<open>ARRAY_MALLOC\<close> returned.
\<close>

theorem null_iff_empty_preserved:
  assumes "valid h a" "null_iff_empty a" "0 < sizeof_T h"
  shows "null_iff_empty array_zero \<and>
    (sizeof_T h * k \<le> SIZE_MAX \<longrightarrow>
       (case array_resize k (h, a) of
          Inl e \<Rightarrow> False
        | Inr (h', a') \<Rightarrow> valid h' a' \<and> null_iff_empty a' = (k = 0 \<longrightarrow> zero_null h))) \<and>
    (sizeof_T h * capacity a \<le> SIZE_MAX \<longrightarrow>
       (case array_copy (h, a) of
          Inl e \<Rightarrow> False
        | Inr (h', c) \<Rightarrow> valid h' c \<and> null_iff_empty c = (capacity a = 0 \<longrightarrow> zero_null h))) \<and>
    (case array_free (h, a) of
       Inl e \<Rightarrow> False
     | Inr (h', a') \<Rightarrow> valid h' a' \<and> null_iff_empty a') \<and>
    (\<forall>n h' a'. array_add item (h, a) = Inr (n, h', a') \<longrightarrow> null_iff_empty a') \<and>
    ((capacity a \<le> count a + 1 \<longrightarrow>
        sizeof_T h * (if capacity a * 2 < 4 then 4 else capacity a * 2) \<le> SIZE_MAX) \<longrightarrow>
       (case array_add (Outside x) (h, a) of
          Inl e \<Rightarrow> False
        | Inr (n, h', a') \<Rightarrow> valid h' a' \<and> null_iff_empty a')) \<and>
    (\<forall>h' a'. array_insert i item (h, a) = Inr (h', a') \<longrightarrow> null_iff_empty a') \<and>
    ((capacity a < count a + 1 \<longrightarrow>
        sizeof_T h * (if capacity a < 1 then 1 else capacity a * 2) \<le> SIZE_MAX) \<longrightarrow>
       (case array_insert i (Outside x) (h, a) of
          Inl e \<Rightarrow> e = Assert_failed \<and> \<not> i \<le> count a
        | Inr (h', a') \<Rightarrow> valid h' a' \<and> null_iff_empty a')) \<and>
    (case array_remove i (h, a) of
       Inl e \<Rightarrow> e = Assert_failed \<and> \<not> i < count a
     | Inr (h', a') \<Rightarrow> valid h' a' \<and> null_iff_empty a') \<and>
    (case array_pop (h, a) of
       Inl e \<Rightarrow> e = Assert_failed \<and> count a = 0
     | Inr (h', a') \<Rightarrow> valid h' a' \<and> null_iff_empty a') \<and>
    (case array_clear (h, a) of (h', a') \<Rightarrow> valid h' a' \<and> null_iff_empty a') \<and>
    (case array_reverse (h, a) of
       Inl e \<Rightarrow> False
     | Inr (h', a') \<Rightarrow> valid h' a' \<and> null_iff_empty a')"
proof -
  have rs: "sizeof_T h * k \<le> SIZE_MAX \<longrightarrow>
       (case array_resize k (h, a) of
          Inl e \<Rightarrow> False
        | Inr (h', a') \<Rightarrow> valid h' a' \<and> null_iff_empty a' = (k = 0 \<longrightarrow> zero_null h))"
  proof
    assume b: "sizeof_T h * k \<le> SIZE_MAX"
    from array_resize_valid [OF assms(1,3) b]
    show "case array_resize k (h, a) of
          Inl e \<Rightarrow> False
        | Inr (h', a') \<Rightarrow> valid h' a' \<and> null_iff_empty a' = (k = 0 \<longrightarrow> zero_null h)"
      by (auto simp: null_iff_empty_def split: sum.splits prod.splits)
  qed
  have cp: "sizeof_T h * capacity a \<le> SIZE_MAX \<longrightarrow>
       (case array_copy (h, a) of
          Inl e \<Rightarrow> False
        | Inr (h', c) \<Rightarrow> valid h' c \<and> null_iff_empty c = (capacity a = 0 \<longrightarrow> zero_null h))"
  proof
    assume b: "sizeof_T h * capacity a \<le> SIZE_MAX"
    from array_copy_valid [OF assms(1,3) b]
    show "case array_copy (h, a) of
          Inl e \<Rightarrow> False
        | Inr (h', c) \<Rightarrow> valid h' c \<and> null_iff_empty c = (capacity a = 0 \<longrightarrow> zero_null h)"
      by (auto simp: null_iff_empty_def split: sum.splits prod.splits)
  qed
  have fr: "case array_free (h, a) of
       Inl e \<Rightarrow> False
     | Inr (h', a') \<Rightarrow> valid h' a' \<and> null_iff_empty a'"
    using array_free_valid [OF assms(1)] valid_array_zero null_iff_empty_zero
    by (auto split: sum.splits prod.splits)
  have ad: "\<forall>n h' a'. array_add item (h, a) = Inr (n, h', a') \<longrightarrow> null_iff_empty a'"
    using array_add_null_iff_empty by blast
  have ado: "(capacity a \<le> count a + 1 \<longrightarrow>
        sizeof_T h * (if capacity a * 2 < 4 then 4 else capacity a * 2) \<le> SIZE_MAX) \<longrightarrow>
       (case array_add (Outside x) (h, a) of
          Inl e \<Rightarrow> False
        | Inr (n, h', a') \<Rightarrow> valid h' a' \<and> null_iff_empty a')"
  proof
    assume b: "capacity a \<le> count a + 1 \<longrightarrow>
        sizeof_T h * (if capacity a * 2 < 4 then 4 else capacity a * 2) \<le> SIZE_MAX"
    from array_add_valid [OF assms(1,3) b, of x]
    show "case array_add (Outside x) (h, a) of
          Inl e \<Rightarrow> False
        | Inr (n, h', a') \<Rightarrow> valid h' a' \<and> null_iff_empty a'"
      by (auto intro: valid_nonempty split: sum.splits prod.splits)
  qed
  have ins: "\<forall>h' a'. array_insert i item (h, a) = Inr (h', a') \<longrightarrow> null_iff_empty a'"
    using array_insert_null_iff_empty by blast
  have inso: "(capacity a < count a + 1 \<longrightarrow>
        sizeof_T h * (if capacity a < 1 then 1 else capacity a * 2) \<le> SIZE_MAX) \<longrightarrow>
       (case array_insert i (Outside x) (h, a) of
          Inl e \<Rightarrow> e = Assert_failed \<and> \<not> i \<le> count a
        | Inr (h', a') \<Rightarrow> valid h' a' \<and> null_iff_empty a')"
  proof
    assume b: "capacity a < count a + 1 \<longrightarrow>
        sizeof_T h * (if capacity a < 1 then 1 else capacity a * 2) \<le> SIZE_MAX"
    show "case array_insert i (Outside x) (h, a) of
          Inl e \<Rightarrow> e = Assert_failed \<and> \<not> i \<le> count a
        | Inr (h', a') \<Rightarrow> valid h' a' \<and> null_iff_empty a'"
    proof (cases "i \<le> count a")
      case True
      from array_insert_valid [OF assms(1) True assms(3) b, of x] show ?thesis
        by (auto intro: valid_nonempty split: sum.splits prod.splits)
    next
      case False
      then show ?thesis by (simp add: array_insert.simps)
    qed
  qed
  have rm: "\<And>j. case array_remove j (h, a) of
       Inl e \<Rightarrow> e = Assert_failed \<and> \<not> j < count a
     | Inr (h', a') \<Rightarrow> valid h' a' \<and> null_iff_empty a'"
  proof -
    fix j
    show "case array_remove j (h, a) of
       Inl e \<Rightarrow> e = Assert_failed \<and> \<not> j < count a
     | Inr (h', a') \<Rightarrow> valid h' a' \<and> null_iff_empty a'"
    proof (cases "j < count a")
      case True
      from array_remove_valid [OF assms(1) True] assms(2) show ?thesis
        by (auto simp: null_iff_empty_def split: sum.splits prod.splits)
    next
      case False
      then show ?thesis by (simp add: array_remove.simps)
    qed
  qed
  have pp: "case array_pop (h, a) of
       Inl e \<Rightarrow> e = Assert_failed \<and> count a = 0
     | Inr (h', a') \<Rightarrow> valid h' a' \<and> null_iff_empty a'"
    using rm [of "if count a = 0 then SIZE_MAX else count a - 1"]
    by (auto simp: array_pop.simps split: sum.splits prod.splits if_splits)
  have cl: "case array_clear (h, a) of (h', a') \<Rightarrow> valid h' a' \<and> null_iff_empty a'"
    using assms(1,2)
    by (auto simp: array_clear.simps valid_def null_iff_empty_def split: option.splits)
  have rv: "case array_reverse (h, a) of
       Inl e \<Rightarrow> False
     | Inr (h', a') \<Rightarrow> valid h' a' \<and> null_iff_empty a'"
    using array_reverse_valid [OF assms(1)] assms(2)
    by (auto split: sum.splits prod.splits)
  from null_iff_empty_zero rs cp fr ad ado ins inso rm [of i] pp cl rv show ?thesis
    by (intro conjI)
qed

theorem null_iff_empty_preserved_witness:
  "valid example_heap example_array \<and> null_iff_empty example_array \<and>
   0 < sizeof_T example_heap \<and> zero_null example_heap \<and>
   sizeof_T example_heap * 0 \<le> SIZE_MAX \<and>
   (case array_resize 0 (example_heap, example_array) of
      Inl e \<Rightarrow> False
    | Inr (h', a') \<Rightarrow> null_iff_empty a') \<and>
   sizeof_T example_heap * capacity example_array \<le> SIZE_MAX \<and>
   (case array_copy (example_heap, example_array) of
      Inl e \<Rightarrow> False
    | Inr (h', c) \<Rightarrow> null_iff_empty c) \<and>
   sizeof_T example_heap * (if capacity example_array * 2 < 4 then 4 else capacity example_array * 2)
     \<le> SIZE_MAX \<and>
   (case array_add (Outside 40) (example_heap, example_array) of
      Inl e \<Rightarrow> False
    | Inr (n, h', a') \<Rightarrow> null_iff_empty a') \<and>
   (case array_insert 0 (Outside 40) (example_heap, example_array) of
      Inl e \<Rightarrow> False
    | Inr (h', a') \<Rightarrow> null_iff_empty a') \<and>
   (case array_insert 0 (Inside (data example_array) 2) (example_heap, example_array) of
      Inl e \<Rightarrow> False
    | Inr (h', a') \<Rightarrow> null_iff_empty a') \<and>
   (case array_remove 0 (example_heap, example_array) of
      Inl e \<Rightarrow> False
    | Inr (h', a') \<Rightarrow> null_iff_empty a')"
proof -
  have z: "zero_null example_heap" "0 < sizeof_T example_heap"
    by (simp_all add: example_heap_def)
  have c: "0 < count example_array" "capacity example_array = 4" "count example_array = 3"
    by (simp_all add: example_array_def)
  have b: "sizeof_T example_heap * 0 \<le> SIZE_MAX"
    "sizeof_T example_heap * capacity example_array \<le> SIZE_MAX"
    "sizeof_T example_heap * (if capacity example_array * 2 < 4 then 4 else capacity example_array * 2)
     \<le> SIZE_MAX"
    by (simp_all add: example_heap_def example_array_def SIZE_MAX_def)
  have r: "\<exists>h' a'. array_insert 0 (Inside (data example_array) 2) (example_heap, example_array)
                  = Inr (h', a')"
    by (simp add: array_insert.simps eval_defs example_heap_def example_array_def)
  from null_iff_empty_preserved [OF valid_example null_iff_empty_example z(2),
      of 0 "Outside 40" 40 0]
    null_iff_empty_preserved [OF valid_example null_iff_empty_example z(2),
      of 0 "Inside (data example_array) 2" 40 0]
    z c b r
  show ?thesis
    using valid_example null_iff_empty_example
    by (auto split: sum.splits prod.splits)
qed

text \<open>
  C8. The claim: slot \<open>i\<close> of the buffer \<^verbatim>\<open>copy_deinterlace()\<close> returns holds the \<open>T\<close>
  stored at byte address \<open>data + i*stride + offset\<close>. The code fills slot \<open>i\<close> from
  \<^verbatim>\<open>this->get(i)\<close>, whose reference designates the computed pointer value and not the
  object it points to: for every memory \<open>m\<close> the call returns, and slot \<open>i\<close> holds the bits
  of the address \<open>data + i*stride + offset\<close> read as a \<open>T\<close>. The content of the memory
  does not enter the result.
\<close>

theorem copy_deinterlace_packs_addresses:
  "case array_view_copy_deinterlace bits_as_T m v h of
     Inl e \<Rightarrow> False
   | Inr (p, h') \<Rightarrow>
       (if view_count v = 0 \<and> zero_null h then p = NULL
        else blocks h' p =
               Some (map (\<lambda>i. bits_as_T (view_data v + i * view_stride v + view_offset v))
                       [0..<view_count v]))"
proof (cases "view_count v = 0 \<and> zero_null h")
  case True
  then show ?thesis
    by (simp add: array_view_copy_deinterlace_def ARRAY_MALLOC_def array_view_copy_loop.simps)
next
  case False
  let ?p = "Suc (next_id h)"
  let ?h1 = "h\<lparr>blocks := (blocks h)(?p \<mapsto> replicate (view_count v) (junk h)),
               next_id := ?p\<rparr>"
  from False have ma: "ARRAY_MALLOC (view_count v) h = (?p, ?h1)"
    by (auto simp: ARRAY_MALLOC_def)
  have "case array_view_copy_loop bits_as_T m v ?p 0 ?h1 of
           Inl e \<Rightarrow> False
         | Inr h' \<Rightarrow>
             blocks h' ?p =
               Some (take 0 (replicate (view_count v) (junk h)) @
                     map (\<lambda>j. bits_as_T (view_data v + j * view_stride v + view_offset v))
                       [0..<view_count v])"
    by (rule array_view_copy_loop_result) (simp_all add: NULL_def)
  with False ma show ?thesis
    by (auto simp: array_view_copy_deinterlace_def split: sum.splits)
qed

end
